theory Spec2Isabelle
  imports Main "HOL-Library.Word"
begin

section \<open>The process table of tinyos3 (kernel_proc.c)\<close>

text \<open>
  A shallow embedding of \<^verbatim>\<open>kernel_proc.c\<close>: the process table \<^verbatim>\<open>PT\<close>, the free list
  threaded through the \<^verbatim>\<open>parent\<close> field, the slot allocator, \<^verbatim>\<open>sys_Exec\<close>,
  \<^verbatim>\<open>sys_WaitChild\<close>, \<^verbatim>\<open>sys_Exit\<close> and the process-info stream.

  Pointers into \<^verbatim>\<open>PT\<close> are table indices (\<open>nat option\<close>, \<open>None\<close> for \<^verbatim>\<open>NULL\<close>), so
  \<^verbatim>\<open>pcb - PT\<close> is the index itself. Pointers to stream control blocks, threads, thread
  control records and heap buffers are indices into their own stores.

  The trampolines \<^verbatim>\<open>start_main_thread\<close> and \<^verbatim>\<open>start_thread\<close> run a task on a new thread;
  here they are only the two values a thread's entry function can have.
  \<^verbatim>\<open>procinfo_close\<close> and \<^verbatim>\<open>sys_OpenInfo\<close> free and allocate the stream object and touch
  nothing of the process table.
\<close>

subsection \<open>Data\<close>

datatype pid_state = FREE | ALIVE | ZOMBIE

type_synonym Pid_t = int

text \<open>A \<^verbatim>\<open>Task\<close> is a function pointer; only its identity and nullness matter here.\<close>

type_synonym Task = "nat option"

text \<open>
  The process control block. The intrusive nodes \<^verbatim>\<open>children_node\<close> and \<^verbatim>\<open>exited_node\<close>
  of a block are represented by the occurrence of the block's index in a
  \<open>children_list\<close> or \<open>exited_list\<close>; the condition variable \<^verbatim>\<open>child_exit\<close> carries
  no data of its own (blocking is modelled by the functions that wait on it).
\<close>

record PCB =
  pstate :: pid_state
  parent :: "nat option"
  exitval :: int
  main_thread :: "nat option"
  main_task :: Task
  argl :: int
  args :: "nat option"
  thread_count :: nat
  FIDT :: "nat option list"
  children_list :: "nat list"
  exited_list :: "nat list"
  ptcb_list :: "nat list"

datatype thread_func = start_main_thread | start_thread

record TCB =
  owner_pcb :: nat
  thread_func :: thread_func
  ptcb :: "nat option"

record PTCB =
  task :: Task
  ptcb_argl :: int
  ptcb_args :: "nat option"
  tcb :: "nat option"

text \<open>
  The kernel state that \<^verbatim>\<open>kernel_proc.c\<close> reads and writes: its own globals \<^verbatim>\<open>PT\<close>,
  \<^verbatim>\<open>process_count\<close> (an \<^verbatim>\<open>unsigned int\<close>) and \<^verbatim>\<open>pcb_freelist\<close>, and the stores of its
  collaborators: the reference counts of the stream control blocks, the heap of
  argument buffers with the number of bytes the allocator can still hand out, the
  thread records, the thread control records and the scheduler's queue of woken
  threads.
\<close>

record kstate =
  PT :: "PCB list"
  process_count :: "32 word"
  pcb_freelist :: "nat option"
  refcount :: "nat \<Rightarrow> nat"
  mem :: "char list list"
  heap_free :: nat
  tcbs :: "TCB list"
  ptcbs :: "PTCB list"
  ready :: "nat list"

text \<open>
  \<^verbatim>\<open>tinyos.h\<close> is not part of the sources at hand. The table capacity \<^verbatim>\<open>MAX_PROC\<close> and
  the handle-table size \<^verbatim>\<open>MAX_FILEID\<close> are therefore read off the arrays
  \<^verbatim>\<open>PCB PT[MAX_PROC]\<close> and \<^verbatim>\<open>FCB* FIDT[MAX_FILEID]\<close> themselves, so that every result
  holds for any value of the two constants.
\<close>

definition MAX_PROC :: "kstate \<Rightarrow> nat" where
  "MAX_PROC s = length (PT s)"

definition MAX_FILEID :: "PCB \<Rightarrow> nat" where
  "MAX_FILEID pcb = length (FIDT pcb)"

text \<open>
  Modelled from the spec: \<^verbatim>\<open>NOPROC\<close>, defined in the absent \<^verbatim>\<open>tinyos.h\<close>, is the
  designated "no such process" sentinel, a \<^verbatim>\<open>Pid_t\<close> that is no table index. The
  header's value is -1.
\<close>

definition NOPROC :: Pid_t where
  "NOPROC = - 1"

text \<open>
  An access through a null or dangling pointer, or beyond the end of an array, has no
  defined result in C: \<open>Fault\<close>. A function that makes such an access does not return.
\<close>

datatype 'a io = Done 'a | Fault

subsection \<open>Collaborators\<close>

text \<open>
  Modelled from the spec: the list helpers of the absent \<^verbatim>\<open>util.h\<close>
  (\<^verbatim>\<open>rlist_push_front\<close>, \<^verbatim>\<open>rlist_push_back\<close>, \<^verbatim>\<open>is_rlist_empty\<close>, \<^verbatim>\<open>rlist_remove\<close>).
  The spec speaks of collections of references with a front and a back; a list of
  table indices, its head being \<^verbatim>\<open>list.next\<close>, is that collection.
  \<^verbatim>\<open>rlist_remove\<close> takes a node, not a list: it unlinks the node from whichever list
  holds it, so the model removes the index from every list of that kind.
\<close>

definition rlist_push_front :: "nat list \<Rightarrow> nat \<Rightarrow> nat list" where
  "rlist_push_front xs n = n # xs"

definition rlist_push_back :: "nat list \<Rightarrow> nat \<Rightarrow> nat list" where
  "rlist_push_back xs n = xs @ [n]"

definition is_rlist_empty :: "nat list \<Rightarrow> bool" where
  "is_rlist_empty xs = (xs = [])"

definition rlist_remove_children_node :: "nat \<Rightarrow> kstate \<Rightarrow> kstate" where
  "rlist_remove_children_node pcb s =
     s\<lparr>PT := map (\<lambda>q. q\<lparr>children_list := removeAll pcb (children_list q)\<rparr>) (PT s)\<rparr>"

definition rlist_remove_exited_node :: "nat \<Rightarrow> kstate \<Rightarrow> kstate" where
  "rlist_remove_exited_node pcb s =
     s\<lparr>PT := map (\<lambda>q. q\<lparr>exited_list := removeAll pcb (exited_list q)\<rparr>) (PT s)\<rparr>"

text \<open>
  Modelled from the spec: \<^verbatim>\<open>FCB_incref\<close> of the absent stream subsystem, "a
  reference-count increment on shared stream handles".
\<close>

definition FCB_incref :: "nat \<Rightarrow> kstate \<Rightarrow> kstate" where
  "FCB_incref f s = s\<lparr>refcount := (refcount s)(f := refcount s f + 1)\<rparr>"

text \<open>
  Modelled from the spec: the heap allocator "for argument-buffer duplication", with
  the contract of the C library. \<^verbatim>\<open>malloc\<close> returns the address of a fresh buffer of the
  requested size, or \<^verbatim>\<open>NULL\<close> when the heap cannot hold it. \<^verbatim>\<open>memcpy\<close> overwrites the
  first \<open>n\<close> bytes of the destination with the first \<open>n\<close> bytes of the source; both
  pointers must be valid and both buffers at least \<open>n\<close> bytes long. The length
  parameter of both has type \<^verbatim>\<open>size_t\<close>: an \<^verbatim>\<open>int\<close> argument is converted modulo
  \<open>2 ^ 64\<close>, so a negative length becomes a huge size.
\<close>

definition size_t :: "int \<Rightarrow> nat" where
  "size_t i = nat (i mod 2 ^ 64)"

definition malloc :: "nat \<Rightarrow> kstate \<Rightarrow> nat option \<times> kstate" where
  "malloc n s =
     (if n \<le> heap_free s
      then (Some (length (mem s)),
            s\<lparr>mem := mem s @ [replicate n (CHR 0x00)], heap_free := heap_free s - n\<rparr>)
      else (None, s))"

definition memcpy :: "nat option \<Rightarrow> nat option \<Rightarrow> nat \<Rightarrow> kstate \<Rightarrow> kstate io" where
  "memcpy dst src n s =
     (case (dst, src) of
        (Some d, Some a) \<Rightarrow>
          if d < length (mem s) \<and> a < length (mem s) \<and>
             n \<le> length (mem s ! d) \<and> n \<le> length (mem s ! a)
          then Done (s\<lparr>mem := (mem s)[d := take n (mem s ! a) @ drop n (mem s ! d)]\<rparr>)
          else Fault
      | _ \<Rightarrow> Fault)"

text \<open>
  Modelled from the spec: the thread subsystem, "a thread-spawn operation taking a
  process and an entry trampoline and returning a schedulable thread record", the
  creation of "one thread-control record referencing the entry point, argument length,
  and argument storage", and the wakeup that schedules a thread. \<^verbatim>\<open>spawn_thread\<close>,
  \<^verbatim>\<open>init_ptcb\<close> and \<^verbatim>\<open>wakeup\<close> are not in the sources at hand.
\<close>

definition spawn_thread :: "nat \<Rightarrow> thread_func \<Rightarrow> kstate \<Rightarrow> nat \<times> kstate" where
  "spawn_thread pcb func s =
     (length (tcbs s),
      s\<lparr>tcbs := tcbs s @ [\<lparr>owner_pcb = pcb, thread_func = func, ptcb = None\<rparr>]\<rparr>)"

definition init_ptcb :: "Task \<Rightarrow> int \<Rightarrow> nat option \<Rightarrow> kstate \<Rightarrow> nat \<times> kstate" where
  "init_ptcb call al ar s =
     (length (ptcbs s),
      s\<lparr>ptcbs := ptcbs s @ [\<lparr>task = call, ptcb_argl = al, ptcb_args = ar, tcb = None\<rparr>]\<rparr>)"

definition wakeup :: "nat \<Rightarrow> kstate \<Rightarrow> kstate" where
  "wakeup t s = s\<lparr>ready := ready s @ [t]\<rparr>"

subsection \<open>Table access\<close>

text \<open>An assignment through a \<^verbatim>\<open>PCB*\<close>: the block at index \<open>p\<close> is replaced.\<close>

definition upd_pcb :: "nat \<Rightarrow> (PCB \<Rightarrow> PCB) \<Rightarrow> kstate \<Rightarrow> kstate" where
  "upd_pcb p f s = s\<lparr>PT := (PT s)[p := f (PT s ! p)]\<rparr>"

definition get_pcb :: "kstate \<Rightarrow> nat \<Rightarrow> nat option" where
  "get_pcb s pid = (if pstate (PT s ! pid) = FREE then None else Some pid)"

fun get_pid :: "nat option \<Rightarrow> Pid_t" where
  "get_pid None = NOPROC"
| "get_pid (Some pcb) = int pcb"

definition initialize_PCB :: "PCB \<Rightarrow> PCB" where
  "initialize_PCB pcb =
     pcb\<lparr>pstate := FREE, argl := 0, args := None, thread_count := 0,
         FIDT := map (\<lambda>_. None) (FIDT pcb),
         children_list := [], exited_list := [], ptcb_list := []\<rparr>"

subsection \<open>The slot allocator\<close>

definition acquire_PCB :: "kstate \<Rightarrow> nat option \<times> kstate" where
  "acquire_PCB s =
     (case pcb_freelist s of
        None \<Rightarrow> (None, s)
      | Some pcb \<Rightarrow>
          (Some pcb,
           (upd_pcb pcb (\<lambda>p. p\<lparr>pstate := ALIVE\<rparr>) s)
             \<lparr>pcb_freelist := parent (PT s ! pcb),
              process_count := process_count s + 1\<rparr>))"

definition release_PCB :: "nat \<Rightarrow> kstate \<Rightarrow> kstate" where
  "release_PCB pcb s =
     (upd_pcb pcb (\<lambda>p. p\<lparr>pstate := FREE, parent := pcb_freelist s\<rparr>) s)
       \<lparr>pcb_freelist := Some pcb, process_count := process_count s - 1\<rparr>"

subsection \<open>Process creation\<close>

text \<open>
  The loop of \<^verbatim>\<open>sys_Exec\<close> over the handle table: entry \<open>i\<close> of the caller is copied
  to the new process and, when it is not \<^verbatim>\<open>NULL\<close>, its reference count is incremented.
\<close>

fun inherit_FIDT :: "nat \<Rightarrow> nat \<Rightarrow> nat list \<Rightarrow> kstate \<Rightarrow> kstate" where
  "inherit_FIDT newproc curproc [] s = s"
| "inherit_FIDT newproc curproc (i # is) s =
     (let s1 = upd_pcb newproc (\<lambda>p. p\<lparr>FIDT := (FIDT p)[i := FIDT (PT s ! curproc) ! i]\<rparr>) s;
          s2 = (case FIDT (PT s1 ! newproc) ! i of
                  None \<Rightarrow> s1
                | Some f \<Rightarrow> FCB_incref f s1)
      in inherit_FIDT newproc curproc is s2)"

text \<open>Lines 157-177: the parent link, the caller's child list and the handles.\<close>

definition exec_inherit :: "nat \<Rightarrow> nat \<Rightarrow> kstate \<Rightarrow> kstate" where
  "exec_inherit curproc newproc s =
     (if get_pid (Some newproc) \<le> 1 then upd_pcb newproc (\<lambda>p. p\<lparr>parent := None\<rparr>) s
      else
        (let s1 = upd_pcb newproc (\<lambda>p. p\<lparr>parent := Some curproc\<rparr>) s;
             s2 = upd_pcb curproc
                    (\<lambda>p. p\<lparr>children_list := rlist_push_front (children_list p) newproc\<rparr>) s1
         in inherit_FIDT newproc curproc [0 ..< MAX_FILEID (PT s2 ! curproc)] s2))"

text \<open>
  Lines 180-190: the entry point and the copy of the arguments. The result of
  \<^verbatim>\<open>malloc\<close> is stored and passed on to \<^verbatim>\<open>memcpy\<close> without a check.
\<close>

definition exec_copy_args :: "nat \<Rightarrow> Task \<Rightarrow> int \<Rightarrow> nat option \<Rightarrow> kstate \<Rightarrow> kstate io" where
  "exec_copy_args newproc call al ar s =
     (let s1 = upd_pcb newproc (\<lambda>p. p\<lparr>main_task := call\<rparr>) s;
          s2 = upd_pcb newproc (\<lambda>p. p\<lparr>argl := al\<rparr>) s1
      in if ar \<noteq> None then
           (let (a, s3) = malloc (size_t al) s2;
                s4 = upd_pcb newproc (\<lambda>p. p\<lparr>args := a\<rparr>) s3
            in memcpy a ar (size_t al) s4)
         else Done (upd_pcb newproc (\<lambda>p. p\<lparr>args := None\<rparr>) s2))"

text \<open>
  Lines 197-209: the main thread, its control record, and the wakeup of
  \<^verbatim>\<open>newproc->main_thread\<close>, which is the thread just stored there.
\<close>

definition exec_main_thread :: "nat \<Rightarrow> Task \<Rightarrow> int \<Rightarrow> nat option \<Rightarrow> kstate \<Rightarrow> kstate" where
  "exec_main_thread newproc call al ar s =
     (if call \<noteq> None then
        (let (t, s1) = spawn_thread newproc start_main_thread s;
             (pt, s2) = init_ptcb call al ar s1;
             s3 = s2\<lparr>tcbs := (tcbs s2)[t := (tcbs s2 ! t)\<lparr>ptcb := Some pt\<rparr>]\<rparr>;
             s4 = s3\<lparr>ptcbs := (ptcbs s3)[pt := (ptcbs s3 ! pt)\<lparr>tcb := Some t\<rparr>]\<rparr>;
             s5 = upd_pcb newproc (\<lambda>p. p\<lparr>ptcb_list := rlist_push_back (ptcb_list p) pt\<rparr>) s4;
             s6 = upd_pcb newproc (\<lambda>p. p\<lparr>thread_count := 1\<rparr>) s5;
             s7 = upd_pcb newproc (\<lambda>p. p\<lparr>main_thread := Some t\<rparr>) s6
         in wakeup t s7)
      else s)"

text \<open>
  \<^verbatim>\<open>sys_Exec\<close>, called by the process \<open>curproc\<close> (the value of \<^verbatim>\<open>CURPROC\<close>) with the
  entry point, the argument length and the pointer to the caller's argument buffer.
  The call returns a PID and the new state, or does not return because the copy of
  the arguments faults.
\<close>

definition sys_Exec ::
  "nat \<Rightarrow> Task \<Rightarrow> int \<Rightarrow> nat option \<Rightarrow> kstate \<Rightarrow> (Pid_t \<times> kstate) io" where
  "sys_Exec curproc call al ar s =
     (case acquire_PCB s of
        (None, s0) \<Rightarrow> Done (get_pid None, s0)
      | (Some newproc, s0) \<Rightarrow>
          (case exec_copy_args newproc call al ar (exec_inherit curproc newproc s0) of
             Fault \<Rightarrow> Fault
           | Done s2 \<Rightarrow>
               Done (get_pid (Some newproc), exec_main_thread newproc call al ar s2)))"

definition sys_GetPid :: "nat \<Rightarrow> kstate \<Rightarrow> Pid_t" where
  "sys_GetPid curproc s = get_pid (Some curproc)"

definition sys_GetPPid :: "nat \<Rightarrow> kstate \<Rightarrow> Pid_t" where
  "sys_GetPPid curproc s = get_pid (parent (PT s ! curproc))"

subsection \<open>Boot\<close>

text \<open>
  The loop of \<^verbatim>\<open>initialize_processes\<close> that threads the free list through the
  \<^verbatim>\<open>parent\<close> fields, from the last slot down to the first.
\<close>

fun build_freelist :: "nat \<Rightarrow> kstate \<Rightarrow> kstate" where
  "build_freelist 0 s = s"
| "build_freelist (Suc pcbiter) s =
     build_freelist pcbiter
       ((upd_pcb pcbiter (\<lambda>p. p\<lparr>parent := pcb_freelist s\<rparr>) s)\<lparr>pcb_freelist := Some pcbiter\<rparr>)"

text \<open>
  \<^verbatim>\<open>initialize_processes\<close>: every block is initialised, the free list is built and the
  count is zeroed (\<open>init_table\<close>, lines 57-71); then the idle process is created by
  \<^verbatim>\<open>Exec(NULL,0,NULL)\<close>, and \<open>None\<close> is the \<^verbatim>\<open>FATAL\<close> exit taken when it does not get
  PID 0.
\<close>

definition init_table :: "kstate \<Rightarrow> kstate" where
  "init_table s =
     (build_freelist (MAX_PROC s) (s\<lparr>PT := map initialize_PCB (PT s), pcb_freelist := None\<rparr>))
       \<lparr>process_count := 0\<rparr>"

definition initialize_processes :: "nat \<Rightarrow> kstate \<Rightarrow> kstate option io" where
  "initialize_processes curproc s =
     (case sys_Exec curproc None 0 None (init_table s) of
        Fault \<Rightarrow> Fault
      | Done (pid, s') \<Rightarrow> Done (if pid \<noteq> 0 then None else Some s'))"

text \<open>
  The PID that \<^verbatim>\<open>initialize_processes\<close> requires for the process it creates, the
  scheduler's idle process ("The scheduler process does not have pid==0").
\<close>

definition idle_pid :: Pid_t where
  "idle_pid = 0"

subsection \<open>Waiting for children\<close>

definition cleanup_zombie :: "nat \<Rightarrow> int option \<Rightarrow> kstate \<Rightarrow> int option \<times> kstate" where
  "cleanup_zombie pcb status s =
     (let status' = (if status \<noteq> None then Some (exitval (PT s ! pcb)) else status);
          s1 = rlist_remove_children_node pcb s;
          s2 = rlist_remove_exited_node pcb s1
      in (status', release_PCB pcb s2))"

text \<open>
  A call either returns, or is left suspended in \<^verbatim>\<open>kernel_wait\<close>, or stops at a failed
  \<^verbatim>\<open>assert\<close>. While a caller is suspended the rest of the system runs: each
  \<^verbatim>\<open>kernel_wait\<close> consumes the next element of a list of state transformers, the
  effect of the other threads until the caller is woken; when the list is used up the
  caller stays blocked. The result records the number of \<^verbatim>\<open>kernel_wait\<close> calls made.
  The \<^verbatim>\<open>int* status\<close> argument is \<open>None\<close> for \<^verbatim>\<open>NULL\<close> and otherwise holds the
  pointed-to value.
\<close>

datatype 'a outcome = Returned 'a | Blocked | AssertFailed

record wait_result =
  ret :: "Pid_t outcome"
  status_out :: "int option"
  kst :: kstate
  waits :: nat

text \<open>The loop \<^verbatim>\<open>while(child->pstate == ALIVE) kernel_wait(...)\<close> and what follows it.\<close>

fun wait_while_alive ::
  "nat \<Rightarrow> (kstate \<Rightarrow> kstate) list \<Rightarrow> Pid_t \<Rightarrow> int option \<Rightarrow> kstate \<Rightarrow> wait_result" where
  "wait_while_alive child [] cpid status s =
     (if pstate (PT s ! child) = ALIVE
      then \<lparr>ret = Blocked, status_out = status, kst = s, waits = 0\<rparr>
      else (case cleanup_zombie child status s of
              (status', s') \<Rightarrow> \<lparr>ret = Returned cpid, status_out = status', kst = s', waits = 0\<rparr>))"
| "wait_while_alive child (e # es) cpid status s =
     (if pstate (PT s ! child) = ALIVE
      then (let r = wait_while_alive child es cpid status (e s) in r\<lparr>waits := Suc (waits r)\<rparr>)
      else (case cleanup_zombie child status s of
              (status', s') \<Rightarrow> \<lparr>ret = Returned cpid, status_out = status', kst = s', waits = 0\<rparr>))"

definition wait_for_specific_child ::
  "nat \<Rightarrow> (kstate \<Rightarrow> kstate) list \<Rightarrow> Pid_t \<Rightarrow> int option \<Rightarrow> kstate \<Rightarrow> wait_result" where
  "wait_for_specific_child curproc envs cpid status s =
     (if cpid < 0 \<or> cpid \<ge> int (MAX_PROC s)
      then \<lparr>ret = Returned NOPROC, status_out = status, kst = s, waits = 0\<rparr>
      else
        (let child = get_pcb s (nat cpid) in
         if child = None \<or> parent (PT s ! nat cpid) \<noteq> Some curproc
         then \<lparr>ret = Returned NOPROC, status_out = status, kst = s, waits = 0\<rparr>
         else wait_while_alive (nat cpid) envs cpid status s))"

fun wait_for_any_child ::
  "nat \<Rightarrow> (kstate \<Rightarrow> kstate) list \<Rightarrow> int option \<Rightarrow> kstate \<Rightarrow> wait_result" where
  "wait_for_any_child curproc envs status s =
     (if is_rlist_empty (children_list (PT s ! curproc))
      then \<lparr>ret = Returned NOPROC, status_out = status, kst = s, waits = 0\<rparr>
      else if \<not> is_rlist_empty (exited_list (PT s ! curproc))
      then
        (let child = hd (exited_list (PT s ! curproc)) in
         if pstate (PT s ! child) \<noteq> ZOMBIE
         then \<lparr>ret = AssertFailed, status_out = status, kst = s, waits = 0\<rparr>
         else
           (let cpid = get_pid (Some child) in
            case cleanup_zombie child status s of
              (status', s') \<Rightarrow> \<lparr>ret = Returned cpid, status_out = status', kst = s', waits = 0\<rparr>))
      else
        (case envs of
           [] \<Rightarrow> \<lparr>ret = Blocked, status_out = status, kst = s, waits = 0\<rparr>
         | e # es \<Rightarrow>
             (let r = wait_for_any_child curproc es status (e s) in r\<lparr>waits := Suc (waits r)\<rparr>)))"

definition sys_WaitChild ::
  "nat \<Rightarrow> (kstate \<Rightarrow> kstate) list \<Rightarrow> Pid_t \<Rightarrow> int option \<Rightarrow> kstate \<Rightarrow> wait_result" where
  "sys_WaitChild curproc envs cpid status s =
     (if cpid \<noteq> NOPROC then wait_for_specific_child curproc envs cpid status s
      else wait_for_any_child curproc envs status s)"


subsection \<open>Exit\<close>

text \<open>
  The loop \<^verbatim>\<open>while(sys_WaitChild(NOPROC,NULL)!=NOPROC);\<close> of the init process. Each call
  consumes the \<^verbatim>\<open>kernel_wait\<close> steps it made. Nothing in the code bounds the number of
  iterations, so the loop is a partial function: \<open>None\<close> is the run that never leaves it.
\<close>

partial_function (option) exit_drain ::
  "nat \<Rightarrow> (kstate \<Rightarrow> kstate) list \<Rightarrow> kstate \<Rightarrow> (unit outcome \<times> kstate) option" where
  "exit_drain curproc envs s =
     (let r = sys_WaitChild curproc envs NOPROC None s in
      case ret r of
        Blocked \<Rightarrow> Some (Blocked, kst r)
      | AssertFailed \<Rightarrow> Some (AssertFailed, kst r)
      | Returned pid \<Rightarrow>
          if pid \<noteq> NOPROC then exit_drain curproc (drop (waits r) envs) (kst r)
          else Some (Returned (), kst r))"

text \<open>
  \<^verbatim>\<open>sys_Exit\<close> up to its last statement, the call \<^verbatim>\<open>sys_ThreadExit(exitval)\<close> of the
  absent thread subsystem: \<open>Returned ()\<close> with the state in which that call is made.
\<close>

definition sys_Exit ::
  "nat \<Rightarrow> (kstate \<Rightarrow> kstate) list \<Rightarrow> int \<Rightarrow> kstate \<Rightarrow> (unit outcome \<times> kstate) option" where
  "sys_Exit curproc envs ev s =
     (let s1 = (if ev \<noteq> 0 then upd_pcb curproc (\<lambda>p. p\<lparr>exitval := ev\<rparr>) s else s)
      in if get_pid (Some curproc) = 1 then exit_drain curproc envs s1
         else Some (Returned (), s1))"

text \<open>
  Modelled from the spec: the step that the thread subsystem performs when the last
  thread of a process finishes (\<^verbatim>\<open>sys_ThreadExit\<close> is not in the sources at hand). It
  "moves the process from \<^verbatim>\<open>ALIVE\<close> to \<^verbatim>\<open>ZOMBIE\<close>, relocates it from its parent's
  \<^verbatim>\<open>children\<close> to \<^verbatim>\<open>exited_children\<close>, and signals the parent's exit-wait condition".
  The process arrives at the back of \<^verbatim>\<open>exited_children\<close>: the spec has zombies reclaimed
  in the order of their arrival, and \<^verbatim>\<open>wait_for_any_child\<close> reclaims
  \<^verbatim>\<open>exited_list.next\<close>, the front. A process without a parent only changes its state.
  The signal carries no data: the waiting functions re-test the table when they run.
\<close>

definition zombie_arrives :: "nat \<Rightarrow> kstate \<Rightarrow> kstate" where
  "zombie_arrives c s =
     (let s1 = upd_pcb c (\<lambda>p. p\<lparr>pstate := ZOMBIE\<rparr>) s in
      case parent (PT s ! c) of
        None \<Rightarrow> s1
      | Some par \<Rightarrow>
          upd_pcb par (\<lambda>p. p\<lparr>exited_list := rlist_push_back (exited_list p) c\<rparr>)
            (rlist_remove_children_node c s1))"

subsection \<open>The process-info stream\<close>

text \<open>
  The snapshot \<^verbatim>\<open>procinfo\<close> and the stream object \<^verbatim>\<open>procinfo_cb\<close> are declared in
  headers that are not at hand; their fields are the ones \<^verbatim>\<open>procinfo_read\<close> assigns.
  \<^verbatim>\<open>PROCINFO_MAX_ARGS_SIZE\<close> is the length of the array \<open>info_args\<close>, and
  \<^verbatim>\<open>sizeof(procinfo->info)\<close> is a parameter of \<^verbatim>\<open>procinfo_read\<close>.
\<close>

record procinfo =
  info_pid :: Pid_t
  info_ppid :: Pid_t
  info_alive :: int
  info_thread_count :: nat
  info_main_task :: Task
  info_argl :: int
  info_args :: "char list"

record procinfo_cb =
  pcbcursor :: nat
  info :: procinfo

text \<open>
  The loop \<^verbatim>\<open>while(pcb->pstate == FREE)\<close>: the cursor it stops at, and whether that is a
  slot in use (\<open>True\<close>) or the end of the table (\<open>False\<close>).
\<close>

function find_nonfree :: "PCB list \<Rightarrow> nat \<Rightarrow> (nat \<times> bool) io" where
  "find_nonfree pt c =
     (if length pt \<le> c then Fault
      else if pstate (pt ! c) = FREE
      then (if Suc c = length pt then Done (Suc c, False) else find_nonfree pt (Suc c))
      else Done (c, True))"
  by pat_completeness auto
termination
  by (relation "measure (\<lambda>(pt, c). length pt - c)") auto

text \<open>The loop that copies the argument bytes, one index at a time.\<close>

fun copy_args :: "char list option \<Rightarrow> nat list \<Rightarrow> char list \<Rightarrow> char list io" where
  "copy_args src [] dst = Done dst"
| "copy_args src (i # is) dst =
     (case src of
        None \<Rightarrow> Fault
      | Some b \<Rightarrow> if i < length b then copy_args src is (dst[i := b ! i]) else Fault)"

text \<open>The buffer behind \<^verbatim>\<open>pcb->args\<close>, if the pointer is valid.\<close>

definition deref_args :: "kstate \<Rightarrow> nat option \<Rightarrow> char list option" where
  "deref_args s ar =
     (case ar of None \<Rightarrow> None | Some a \<Rightarrow> if a < length (mem s) then Some (mem s ! a) else None)"

text \<open>
  \<^verbatim>\<open>procinfo_read\<close> returns the byte count, the stream object and the caller's buffer,
  seen as the snapshot copied into it. The buffer size \<open>n\<close> is not used by the code.
\<close>

definition procinfo_read ::
  "int \<Rightarrow> kstate \<Rightarrow> procinfo_cb option \<Rightarrow> procinfo \<Rightarrow> nat
     \<Rightarrow> (int \<times> procinfo_cb option \<times> procinfo) io" where
  "procinfo_read sizeof_info s procinfo buf n =
     (case procinfo of
        None \<Rightarrow> Done (0, None, buf)
      | Some cb \<Rightarrow>
          if pcbcursor cb = MAX_PROC s then Done (0, Some cb, buf)
          else
            (case find_nonfree (PT s) (pcbcursor cb) of
               Fault \<Rightarrow> Fault
             | Done (c, False) \<Rightarrow> Done (0, Some (cb\<lparr>pcbcursor := c\<rparr>), buf)
             | Done (c, True) \<Rightarrow>
                 (let pcb = PT s ! c;
                      i1 = (info cb)\<lparr>info_alive := (if pstate pcb = ALIVE then 1 else 0)\<rparr>;
                      i2 = i1\<lparr>info_pid := get_pid (Some c), info_ppid := get_pid (parent pcb),
                              info_thread_count := thread_count pcb,
                              info_main_task := main_task pcb, info_argl := argl pcb\<rparr>
                  in case copy_args (deref_args s (args pcb))
                            [0 ..< min (nat (info_argl i2)) (length (info_args i2))] (info_args i2) of
                       Fault \<Rightarrow> Fault
                     | Done a \<Rightarrow>
                         (let i3 = i2\<lparr>info_args := a\<rparr>
                          in Done (sizeof_info, Some \<lparr>pcbcursor = Suc c, info = i3\<rparr>, i3)))))"

text \<open>\<^verbatim>\<open>init_procinfo_cb\<close> sets the cursor only; the snapshot keeps what \<^verbatim>\<open>xmalloc\<close> left.\<close>

definition init_procinfo_cb :: "procinfo \<Rightarrow> procinfo_cb" where
  "init_procinfo_cb garbage = \<lparr>pcbcursor = 0, info = garbage\<rparr>"

subsection \<open>Static storage before boot\<close>

text \<open>
  C zero-initialises static storage: before \<^verbatim>\<open>initialize_processes\<close> runs, every block
  of a table of \<open>n\<close> slots with \<open>m\<close> handles each is all zeros (\<^verbatim>\<open>FREE\<close> is the first
  enumerator), and the stores of the collaborators are empty; the heap has \<open>h\<close> bytes.
\<close>

definition zero_PCB :: "nat \<Rightarrow> PCB" where
  "zero_PCB m =
     \<lparr>pstate = FREE, parent = None, exitval = 0, main_thread = None, main_task = None,
      argl = 0, args = None, thread_count = 0, FIDT = replicate m None,
      children_list = [], exited_list = [], ptcb_list = []\<rparr>"

definition zero_state :: "nat \<Rightarrow> nat \<Rightarrow> nat \<Rightarrow> kstate" where
  "zero_state n m h =
     \<lparr>PT = replicate n (zero_PCB m), process_count = 0, pcb_freelist = None,
      refcount = (\<lambda>_. 0), mem = [], heap_free = h, tcbs = [], ptcbs = [], ready = []\<rparr>"

section \<open>Properties\<close>

subsection \<open>Notions used in the statements\<close>

text \<open>
  \<open>is_freelist pt h xs\<close>: following the \<^verbatim>\<open>parent\<close> links from \<open>h\<close> visits exactly the slots
  \<open>xs\<close>, in this order, each of them a \<^verbatim>\<open>FREE\<close> slot of the table, and ends at \<^verbatim>\<open>NULL\<close>.
\<close>

fun is_freelist :: "PCB list \<Rightarrow> nat option \<Rightarrow> nat list \<Rightarrow> bool" where
  "is_freelist pt h [] = (h = None)"
| "is_freelist pt h (x # xs) =
     (h = Some x \<and> x < length pt \<and> pstate (pt ! x) = FREE \<and> is_freelist pt (parent (pt ! x)) xs)"

text \<open>The number of slots whose state is not \<^verbatim>\<open>FREE\<close>.\<close>

definition nonfree_count :: "PCB list \<Rightarrow> nat" where
  "nonfree_count pt = length (filter (\<lambda>p. pstate p \<noteq> FREE) pt)"

text \<open>Every index on an exited list is an index of the table.\<close>

definition exited_ok :: "kstate \<Rightarrow> bool" where
  "exited_ok s =
     (\<forall>i < length (PT s). \<forall>c \<in> set (exited_list (PT s ! i)). c < length (PT s))"

text \<open>
  The allocator's invariant: the free list \<open>xs\<close> has no repetition and holds every
  \<^verbatim>\<open>FREE\<close> slot, and \<^verbatim>\<open>process_count\<close> is the number of the other slots.
\<close>

definition alloc_inv :: "kstate \<Rightarrow> nat list \<Rightarrow> bool" where
  "alloc_inv s xs =
     (is_freelist (PT s) (pcb_freelist s) xs \<and> distinct xs \<and>
      length xs + nonfree_count (PT s) = length (PT s) \<and>
      unat (process_count s) = nonfree_count (PT s) \<and> exited_ok s)"

text \<open>
  \<open>alloc_same s s'\<close>: the step from \<open>s\<close> to \<open>s'\<close> leaves the allocator's data alone: the
  table size, which slots are \<^verbatim>\<open>FREE\<close>, the links of the free slots, the head and the
  count; and it adds nothing to an exited list.
\<close>

definition alloc_same :: "kstate \<Rightarrow> kstate \<Rightarrow> bool" where
  "alloc_same s s' =
     (pcb_freelist s' = pcb_freelist s \<and> process_count s' = process_count s \<and>
      length (PT s') = length (PT s) \<and>
      (\<forall>i < length (PT s).
         (pstate (PT s' ! i) = FREE) = (pstate (PT s ! i) = FREE) \<and>
         (pstate (PT s ! i) = FREE \<longrightarrow> parent (PT s' ! i) = parent (PT s ! i)) \<and>
         set (exited_list (PT s' ! i)) \<subseteq> set (exited_list (PT s ! i))))"

text \<open>
  A run of \<^verbatim>\<open>Exec\<close> calls, each with its caller and arguments, with no exit between: the
  PIDs returned, unless one of the calls faults.
\<close>

fun run_execs ::
  "(nat \<times> Task \<times> int \<times> nat option) list \<Rightarrow> kstate \<Rightarrow> (Pid_t list \<times> kstate) io" where
  "run_execs [] s = Done ([], s)"
| "run_execs ((curproc, call, al, ar) # cs) s =
     (case sys_Exec curproc call al ar s of
        Fault \<Rightarrow> Fault
      | Done (pid, s1) \<Rightarrow>
          (case run_execs cs s1 of
             Fault \<Rightarrow> Fault
           | Done (pids, s2) \<Rightarrow> Done (pid # pids, s2)))"

text \<open>
  Sequences of calls into the allocator and of system calls in which no caller is
  resumed after a suspension. A \<^verbatim>\<open>WaitChild\<close> in such a sequence returns at once, or it
  is still blocked (with the state it found) when the next call of the sequence is
  made. An \<^verbatim>\<open>Exit\<close> runs up to its call of \<^verbatim>\<open>sys_ThreadExit\<close>. An \<^verbatim>\<open>Exec\<close> that faults
  ends the run of the system; the sequences considered have none.
\<close>

datatype kcall =
    Acquire
  | Release nat
  | Exec nat Task int "nat option"
  | WaitChild nat Pid_t "int option"
  | Exit nat int

fun run_call :: "kcall \<Rightarrow> kstate \<Rightarrow> kstate" where
  "run_call Acquire s = snd (acquire_PCB s)"
| "run_call (Release pcb) s = release_PCB pcb s"
| "run_call (Exec curproc call al ar) s =
     (case sys_Exec curproc call al ar s of Fault \<Rightarrow> s | Done (pid, s') \<Rightarrow> s')"
| "run_call (WaitChild curproc cpid status) s = kst (sys_WaitChild curproc [] cpid status s)"
| "run_call (Exit curproc ev) s =
     (case sys_Exit curproc [] ev s of None \<Rightarrow> s | Some (out, s') \<Rightarrow> s')"

text \<open>
  What the callers owe: \<^verbatim>\<open>release_PCB\<close> is given a slot of the table that is in use,
  the caller of \<^verbatim>\<open>WaitChild\<close> or \<^verbatim>\<open>Exit\<close> is a process of the table, and an \<^verbatim>\<open>Exec\<close>
  does not fault.
\<close>

fun legal_call :: "kcall \<Rightarrow> kstate \<Rightarrow> bool" where
  "legal_call Acquire s = True"
| "legal_call (Release pcb) s = (pcb < MAX_PROC s \<and> pstate (PT s ! pcb) \<noteq> FREE)"
| "legal_call (Exec curproc call al ar) s = (sys_Exec curproc call al ar s \<noteq> Fault)"
| "legal_call (WaitChild curproc cpid status) s = (curproc < MAX_PROC s)"
| "legal_call (Exit curproc ev) s = (curproc < MAX_PROC s)"

fun run_calls :: "kcall list \<Rightarrow> kstate \<Rightarrow> kstate" where
  "run_calls [] s = s"
| "run_calls (c # cs) s = run_calls cs (run_call c s)"

fun legal_calls :: "kcall list \<Rightarrow> kstate \<Rightarrow> bool" where
  "legal_calls [] s = True"
| "legal_calls (c # cs) s = (legal_call c s \<and> legal_calls cs (run_call c s))"

text \<open>
  \<open>n\<close> successive calls \<^verbatim>\<open>sys_WaitChild(NOPROC, status)\<close> of the process \<open>curproc\<close>, with
  no step of another thread in between: the outcomes of the calls, in order.
\<close>

fun reap_any :: "nat \<Rightarrow> int option \<Rightarrow> nat \<Rightarrow> kstate \<Rightarrow> Pid_t outcome list \<times> kstate" where
  "reap_any curproc status 0 s = ([], s)"
| "reap_any curproc status (Suc n) s =
     (let r = sys_WaitChild curproc [] NOPROC status s in
      case reap_any curproc status n (kst r) of (rs, s') \<Rightarrow> (ret r # rs, s'))"

text \<open>The state in which a suspended caller wakes up, after the given steps of the others.\<close>

fun run_envs :: "(kstate \<Rightarrow> kstate) list \<Rightarrow> kstate \<Rightarrow> kstate" where
  "run_envs [] s = s"
| "run_envs (e # es) s = run_envs es (e s)"

text \<open>
  A step of the other threads while a caller is suspended: the process \<open>c\<close> becomes a
  zombie, and another thread of its parent \<open>par\<close> reaps it with \<^verbatim>\<open>sys_WaitChild(c)\<close>.
\<close>

definition sibling_reaps :: "nat \<Rightarrow> nat \<Rightarrow> kstate \<Rightarrow> kstate" where
  "sibling_reaps par c t =
     kst (sys_WaitChild par [] (int c) None (upd_pcb c (\<lambda>p. p\<lparr>pstate := ZOMBIE\<rparr>) t))"

text \<open>
  A step of the other threads that keeps the size of the table and the exit value
  recorded for the process \<open>curproc\<close>.
\<close>

definition env_keeps_exitval :: "nat \<Rightarrow> (kstate \<Rightarrow> kstate) \<Rightarrow> bool" where
  "env_keeps_exitval curproc e =
     (\<forall>t. length (PT (e t)) = length (PT t) \<and>
          (curproc < length (PT t) \<longrightarrow> exitval (PT (e t) ! curproc) = exitval (PT t ! curproc)))"

text \<open>A snapshot area of \<open>m\<close> argument bytes, all zero.\<close>

definition zero_procinfo :: "nat \<Rightarrow> procinfo" where
  "zero_procinfo m =
     \<lparr>info_pid = 0, info_ppid = 0, info_alive = 0, info_thread_count = 0,
      info_main_task = None, info_argl = 0, info_args = replicate m (CHR 0x00)\<rparr>"

text \<open>
  A small table on which the functions are run: slot 0 is the idle process, slot 1 is
  init with the exited child 2, and slot 3 is free.
\<close>

definition sample_PCB :: "pid_state \<Rightarrow> nat option \<Rightarrow> nat list \<Rightarrow> nat list \<Rightarrow> PCB" where
  "sample_PCB st par ch ex =
     \<lparr>pstate = st, parent = par, exitval = 7, main_thread = None, main_task = None,
      argl = 0, args = None, thread_count = 0, FIDT = [Some 3, None],
      children_list = ch, exited_list = ex, ptcb_list = []\<rparr>"

definition sample_state :: kstate where
  "sample_state =
     \<lparr>PT = [sample_PCB ALIVE None [] [], sample_PCB ALIVE None [2] [2],
            sample_PCB ZOMBIE (Some 1) [] [], sample_PCB FREE None [] []],
      process_count = 3, pcb_freelist = Some 3,
      refcount = (\<lambda>_. 1), mem = [], heap_free = 1024, tcbs = [], ptcbs = [], ready = []\<rparr>"

text \<open>The same table before the child 2 exits.\<close>

definition sample_alive :: kstate where
  "sample_alive =
     sample_state\<lparr>PT := [sample_PCB ALIVE None [] [], sample_PCB ALIVE None [2] [],
            sample_PCB ALIVE (Some 1) [] [], sample_PCB FREE None [] []]\<rparr>"

text \<open>
  A table in which init has three live children, created in the order 2, 3, 4, and
  slot 5 is free.
\<close>

definition sample_family :: kstate where
  "sample_family =
     sample_state\<lparr>PT := [sample_PCB ALIVE None [] [], sample_PCB ALIVE None [4, 3, 2] [],
            sample_PCB ALIVE (Some 1) [] [], sample_PCB ALIVE (Some 1) [] [],
            sample_PCB ALIVE (Some 1) [] [], sample_PCB FREE None [] []],
       process_count := 5, pcb_freelist := Some 5\<rparr>"

subsection \<open>The allocator's invariant\<close>

lemma nonfree_count_le: "nonfree_count pt \<le> length pt"
  by (simp add: nonfree_count_def)

lemma nonfree_count_update:
  "i < length pt \<Longrightarrow>
   nonfree_count (pt[i := v]) + (if pstate (pt ! i) \<noteq> FREE then 1 else 0) =
   nonfree_count pt + (if pstate v \<noteq> FREE then 1 else 0)"
  unfolding nonfree_count_def
proof (induction pt arbitrary: i)
  case Nil
  then show ?case by simp
next
  case (Cons a pt)
  show ?case
  proof (cases i)
    case 0
    then show ?thesis by simp
  next
    case (Suc j)
    with Cons.prems have "j < length pt" by simp
    from Cons.IH [OF this] Suc show ?thesis by simp
  qed
qed

lemma is_freelist_update_other:
  "is_freelist pt h xs \<Longrightarrow> x \<notin> set xs \<Longrightarrow> is_freelist (pt[x := v]) h xs"
  by (induction xs arbitrary: h) auto

lemma is_freelist_all_free:
  "is_freelist pt h xs \<Longrightarrow> y \<in> set xs \<Longrightarrow> y < length pt \<and> pstate (pt ! y) = FREE"
  by (induction xs arbitrary: h) auto

lemma exited_ok_mono:
  assumes "exited_ok s" and "length (PT s') = length (PT s)"
    and "\<And>i. i < length (PT s) \<Longrightarrow> set (exited_list (PT s' ! i)) \<subseteq> set (exited_list (PT s ! i))"
  shows "exited_ok s'"
  unfolding exited_ok_def
proof (intro allI impI ballI)
  fix i c assume "i < length (PT s')" and "c \<in> set (exited_list (PT s' ! i))"
  with assms(2,3) have "i < length (PT s)" and "c \<in> set (exited_list (PT s ! i))" by auto
  with assms(1,2) show "c < length (PT s')" by (simp add: exited_ok_def)
qed

lemma exited_ok_update:
  assumes "exited_ok s" and "PT s' = (PT s)[p := v]"
    and "set (exited_list v) \<subseteq> set (exited_list (PT s ! p))"
  shows "exited_ok s'"
proof (rule exited_ok_mono [OF assms(1)])
  show "length (PT s') = length (PT s)" by (simp add: assms(2))
  fix i assume "i < length (PT s)"
  then show "set (exited_list (PT s' ! i)) \<subseteq> set (exited_list (PT s ! i))"
    using assms(3) by (cases "i = p") (simp_all add: assms(2))
qed

lemma acquire_PCB_inv:
  assumes inv: "alloc_inv s xs" and len: "length (PT s) < 2 ^ 32"
  shows "alloc_inv (snd (acquire_PCB s)) (tl xs) \<and> fst (acquire_PCB s) = (if xs = [] then None else Some (hd xs))"
proof (cases xs)
  case Nil
  with inv show ?thesis by (simp add: alloc_inv_def acquire_PCB_def)
next
  case (Cons x ys)
  from inv Cons have h: "pcb_freelist s = Some x" and x: "x < length (PT s)"
    and fr: "pstate (PT s ! x) = FREE" and rest: "is_freelist (PT s) (parent (PT s ! x)) ys"
    and dist: "x \<notin> set ys" "distinct ys"
    and cnt: "Suc (length ys) + nonfree_count (PT s) = length (PT s)"
    and pc: "unat (process_count s) = nonfree_count (PT s)"
    and ex: "exited_ok s"
    by (simp_all add: alloc_inv_def)
  let ?pt = "(PT s)[x := (PT s ! x)\<lparr>pstate := ALIVE\<rparr>]"
  have st: "snd (acquire_PCB s) = s\<lparr>PT := ?pt, pcb_freelist := parent (PT s ! x),
               process_count := process_count s + 1\<rparr>"
    using h by (simp add: acquire_PCB_def upd_pcb_def)
  have nf: "nonfree_count ?pt = Suc (nonfree_count (PT s))"
    using nonfree_count_update [OF x, of "(PT s ! x)\<lparr>pstate := ALIVE\<rparr>"] fr by simp
  have fl: "is_freelist ?pt (parent (PT s ! x)) ys"
    using rest dist(1) by (rule is_freelist_update_other)
  have "unat (process_count s) + 1 < 2 ^ 32"
    using pc cnt len by simp
  then have pc': "unat (process_count s + 1) = Suc (unat (process_count s))"
    by (simp add: unat_word_ariths)
  have ex': "exited_ok (snd (acquire_PCB s))"
    by (rule exited_ok_update [OF ex, of _ x "(PT s ! x)\<lparr>pstate := ALIVE\<rparr>"])
      (simp_all add: st)
  show ?thesis
    using Cons h st nf fl dist cnt pc pc' ex' by (simp add: alloc_inv_def acquire_PCB_def)
qed

lemma release_PCB_inv:
  assumes inv: "alloc_inv s xs" and p: "p < length (PT s)" and nf: "pstate (PT s ! p) \<noteq> FREE"
  shows "alloc_inv (release_PCB p s) (p # xs)"
proof -
  let ?v = "(PT s ! p)\<lparr>pstate := FREE, parent := pcb_freelist s\<rparr>"
  let ?pt = "(PT s)[p := ?v]"
  from inv have fl: "is_freelist (PT s) (pcb_freelist s) xs" and dist: "distinct xs"
    and cnt: "length xs + nonfree_count (PT s) = length (PT s)"
    and pc: "unat (process_count s) = nonfree_count (PT s)"
    and ex: "exited_ok s"
    by (simp_all add: alloc_inv_def)
  have notin: "p \<notin> set xs"
    using is_freelist_all_free [OF fl] nf by blast
  have st: "release_PCB p s = s\<lparr>PT := ?pt, pcb_freelist := Some p, process_count := process_count s - 1\<rparr>"
    by (simp add: release_PCB_def upd_pcb_def)
  have nfc: "Suc (nonfree_count ?pt) = nonfree_count (PT s)"
    using nonfree_count_update [OF p, of ?v] nf by simp
  have fl': "is_freelist ?pt (pcb_freelist s) xs"
    using fl notin by (rule is_freelist_update_other)
  have "process_count s \<noteq> 0"
    using pc nfc by (metis Zero_not_Suc unat_0)
  then have pc': "Suc (unat (process_count s - 1)) = unat (process_count s)"
    by (metis Suc_pred' unat_minus_one unat_gt_0 word_gt_0)
  have ex': "exited_ok (release_PCB p s)"
    by (rule exited_ok_update [OF ex, of _ p ?v]) (simp_all add: st)
  show ?thesis
    using st p fl' notin dist cnt pc pc' nfc ex' by (simp add: alloc_inv_def)
qed


lemma alloc_same_refl: "alloc_same s s"
  by (simp add: alloc_same_def)

lemma alloc_same_trans:
  assumes "alloc_same s s'" and "alloc_same s' s''"
  shows "alloc_same s s''"
proof -
  have "set (exited_list (PT s'' ! i)) \<subseteq> set (exited_list (PT s ! i))"
    if "i < length (PT s)" for i
  proof -
    from that assms have "set (exited_list (PT s'' ! i)) \<subseteq> set (exited_list (PT s' ! i))"
      and "set (exited_list (PT s' ! i)) \<subseteq> set (exited_list (PT s ! i))"
      by (simp_all add: alloc_same_def)
    then show ?thesis by (rule subset_trans)
  qed
  with assms show ?thesis by (simp add: alloc_same_def)
qed

lemma nonfree_count_map:
  "nonfree_count pt = length (filter (\<lambda>b. \<not> b) (map (\<lambda>p. pstate p = FREE) pt))"
  by (simp add: nonfree_count_def filter_map comp_def)

lemma alloc_same_nonfree: 
  assumes "alloc_same s s'" shows "nonfree_count (PT s') = nonfree_count (PT s)"
proof -
  from assms have "map (\<lambda>p. pstate p = FREE) (PT s') = map (\<lambda>p. pstate p = FREE) (PT s)"
    by (intro nth_equalityI) (simp_all add: alloc_same_def)
  then show ?thesis by (simp add: nonfree_count_map)
qed

lemma alloc_same_freelist:
  "is_freelist (PT s) h xs \<Longrightarrow> alloc_same s s' \<Longrightarrow> is_freelist (PT s') h xs"
  by (induction xs arbitrary: h) (auto simp: alloc_same_def)

lemma alloc_same_exited_ok: "exited_ok s \<Longrightarrow> alloc_same s s' \<Longrightarrow> exited_ok s'"
  by (erule exited_ok_mono) (simp_all add: alloc_same_def)

lemma alloc_same_inv:
  assumes "alloc_inv s xs" and "alloc_same s s'"
  shows "alloc_inv s' xs"
proof -
  from assms(2) have "pcb_freelist s' = pcb_freelist s" "process_count s' = process_count s"
    "length (PT s') = length (PT s)" by (simp_all add: alloc_same_def)
  with assms show ?thesis
    using alloc_same_nonfree [of s s'] alloc_same_freelist [of s "pcb_freelist s" xs s']
      alloc_same_exited_ok [of s s']
    by (simp add: alloc_inv_def)
qed

lemma upd_pcb_alloc_same:
  assumes "pstate (f (PT s ! p)) = pstate (PT s ! p)"
    and "pstate (PT s ! p) = FREE \<Longrightarrow> parent (f (PT s ! p)) = parent (PT s ! p)"
    and "exited_list (f (PT s ! p)) = exited_list (PT s ! p)"
  shows "alloc_same s (upd_pcb p f s)"
proof -
  have "pstate ((PT s)[p := f (PT s ! p)] ! i) = pstate (PT s ! i) \<and>
        (pstate (PT s ! i) = FREE \<longrightarrow>
           parent ((PT s)[p := f (PT s ! p)] ! i) = parent (PT s ! i)) \<and>
        exited_list ((PT s)[p := f (PT s ! p)] ! i) = exited_list (PT s ! i)"
    if "i < length (PT s)" for i
    using that assms by (cases "i = p") simp_all
  then show ?thesis by (simp add: alloc_same_def upd_pcb_def)
qed

lemma FCB_incref_alloc_same: "alloc_same s (FCB_incref f s)"
  by (simp add: alloc_same_def FCB_incref_def)

lemma inherit_FIDT_alloc_same: "alloc_same s (inherit_FIDT newproc curproc is s)"
proof (induction "is" arbitrary: s)
  case Nil
  show ?case by (simp add: alloc_same_refl)
next
  case (Cons i "is")
  let ?s1 = "upd_pcb newproc (\<lambda>p. p\<lparr>FIDT := (FIDT p)[i := FIDT (PT s ! curproc) ! i]\<rparr>) s"
  have 1: "alloc_same s ?s1" by (rule upd_pcb_alloc_same) simp_all
  show ?case
  proof (cases "FIDT (PT ?s1 ! newproc) ! i")
    case None
    then show ?thesis using alloc_same_trans [OF 1 Cons.IH [of ?s1]] by (simp add: Let_def)
  next
    case (Some f)
    have 2: "alloc_same s (FCB_incref f ?s1)"
      using 1 FCB_incref_alloc_same by (rule alloc_same_trans)
    show ?thesis using Some alloc_same_trans [OF 2 Cons.IH [of "FCB_incref f ?s1"]] by (simp add: Let_def)
  qed
qed


lemma exec_inherit_alloc_same:
  assumes "pstate (PT s ! newproc) \<noteq> FREE"
  shows "alloc_same s (exec_inherit curproc newproc s)"
proof (cases "get_pid (Some newproc) \<le> 1")
  case True
  have "alloc_same s (upd_pcb newproc (\<lambda>p. p\<lparr>parent := None\<rparr>) s)"
    by (rule upd_pcb_alloc_same) (use assms in simp_all)
  with True show ?thesis
    by (simp add: exec_inherit_def)
next
  case False
  let ?s1 = "upd_pcb newproc (\<lambda>p. p\<lparr>parent := Some curproc\<rparr>) s"
  let ?s2 = "upd_pcb curproc
               (\<lambda>p. p\<lparr>children_list := rlist_push_front (children_list p) newproc\<rparr>) ?s1"
  have 1: "alloc_same s ?s1" by (rule upd_pcb_alloc_same) (use assms in simp_all)
  have 2: "alloc_same ?s1 ?s2" by (simp add: upd_pcb_alloc_same)
  have 3: "alloc_same ?s2 (inherit_FIDT newproc curproc [0 ..< MAX_FILEID (PT ?s2 ! curproc)] ?s2)"
    by (rule inherit_FIDT_alloc_same)
  from False show ?thesis
    using alloc_same_trans [OF alloc_same_trans [OF 1 2] 3]
    by (simp add: exec_inherit_def Let_def)
qed

lemma upd_pcb_thrice:
  "PT (upd_pcb n h (upd_pcb n g (upd_pcb n f s))) = (PT s)[n := h (g (f (PT s ! n)))]"
  by (cases "n < length (PT s)") (simp_all add: upd_pcb_def list_update_beyond)

lemma exec_copy_args_null:
  "exec_copy_args n call al None s =
     Done (upd_pcb n (\<lambda>p. p\<lparr>args := None\<rparr>) (upd_pcb n (\<lambda>p. p\<lparr>argl := al\<rparr>)
       (upd_pcb n (\<lambda>p. p\<lparr>main_task := call\<rparr>) s)))"
  by (simp add: exec_copy_args_def)

lemma exec_copy_args_Done:
  assumes "exec_copy_args n call al ar s = Done s'"
  shows "PT s' = (PT s)[n := (PT s ! n)\<lparr>main_task := call, argl := al,
                     args := (if ar = None then None else Some (length (mem s)))\<rparr>]"
    and "pcb_freelist s' = pcb_freelist s" and "process_count s' = process_count s"
    and "refcount s' = refcount s" and "tcbs s' = tcbs s" and "ptcbs s' = ptcbs s"
    and "ready s' = ready s"
proof -
  let ?s2 = "upd_pcb n (\<lambda>p. p\<lparr>argl := al\<rparr>) (upd_pcb n (\<lambda>p. p\<lparr>main_task := call\<rparr>) s)"
  have "PT s' = (PT s)[n := (PT s ! n)\<lparr>main_task := call, argl := al,
                     args := (if ar = None then None else Some (length (mem s)))\<rparr>] \<and>
        pcb_freelist s' = pcb_freelist s \<and> process_count s' = process_count s \<and>
        refcount s' = refcount s \<and> tcbs s' = tcbs s \<and> ptcbs s' = ptcbs s \<and> ready s' = ready s"
  proof (cases ar)
    case None
    with assms have "s' = upd_pcb n (\<lambda>p. p\<lparr>args := None\<rparr>) ?s2"
      by (simp add: exec_copy_args_null)
    with None show ?thesis
      by (cases "n < length (PT s)") (simp_all add: upd_pcb_def list_update_beyond)
  next
    case (Some src)
    from assms Some have fit: "size_t al \<le> heap_free ?s2"
      by (auto simp: exec_copy_args_def Let_def malloc_def memcpy_def split: if_splits)
    let ?s3 = "?s2\<lparr>mem := mem ?s2 @ [replicate (size_t al) (CHR 0x00)],
                    heap_free := heap_free ?s2 - size_t al\<rparr>"
    let ?s4 = "upd_pcb n (\<lambda>p. p\<lparr>args := Some (length (mem ?s2))\<rparr>) ?s3"
    from assms Some fit have "memcpy (Some (length (mem ?s2))) (Some src) (size_t al) ?s4 = Done s'"
      by (simp add: exec_copy_args_def Let_def malloc_def)
    then have s': "s' = ?s4\<lparr>mem := (mem ?s4)[length (mem ?s2) :=
                        take (size_t al) (mem ?s4 ! src) @
                        drop (size_t al) (mem ?s4 ! length (mem ?s2))]\<rparr>"
      by (auto simp: memcpy_def split: if_splits)
    from Some show ?thesis
      unfolding s'
      by (cases "n < length (PT s)") (simp_all add: upd_pcb_def list_update_beyond)
  qed
  then show "PT s' = (PT s)[n := (PT s ! n)\<lparr>main_task := call, argl := al,
                     args := (if ar = None then None else Some (length (mem s)))\<rparr>]"
    and "pcb_freelist s' = pcb_freelist s" and "process_count s' = process_count s"
    and "refcount s' = refcount s" and "tcbs s' = tcbs s" and "ptcbs s' = ptcbs s"
    and "ready s' = ready s"
    by simp_all
qed

lemma exec_copy_args_alloc_same:
  assumes "exec_copy_args newproc call al ar s = Done s'"
  shows "alloc_same s s'"
proof -
  let ?f = "\<lambda>p. p\<lparr>main_task := call, argl := al,
                     args := (if ar = None then None else Some (length (mem s)))\<rparr>"
  have "alloc_same s (upd_pcb newproc ?f s)" by (rule upd_pcb_alloc_same) simp_all
  then show ?thesis
    using exec_copy_args_Done(1-3) [OF assms] by (simp add: alloc_same_def upd_pcb_def)
qed

lemma alloc_same_others:
  "PT s' = PT s \<Longrightarrow> pcb_freelist s' = pcb_freelist s \<Longrightarrow> process_count s' = process_count s
   \<Longrightarrow> alloc_same s s'"
  by (simp add: alloc_same_def)

lemma exec_main_thread_alloc_same: "alloc_same s (exec_main_thread newproc call al ar s)"
proof (cases call)
  case None
  then show ?thesis by (simp add: exec_main_thread_def alloc_same_refl)
next
  case (Some c)
  define t where "t = length (tcbs s)"
  define pt where "pt = length (ptcbs s)"
  define s1 where "s1 = snd (spawn_thread newproc start_main_thread s)"
  define s2 where "s2 = snd (init_ptcb call al ar s1)"
  define s3 where "s3 = s2\<lparr>tcbs := (tcbs s2)[t := (tcbs s2 ! t)\<lparr>ptcb := Some pt\<rparr>]\<rparr>"
  define s4 where "s4 = s3\<lparr>ptcbs := (ptcbs s3)[pt := (ptcbs s3 ! pt)\<lparr>tcb := Some t\<rparr>]\<rparr>"
  define s5 where "s5 = upd_pcb newproc (\<lambda>p. p\<lparr>ptcb_list := rlist_push_back (ptcb_list p) pt\<rparr>) s4"
  define s6 where "s6 = upd_pcb newproc (\<lambda>p. p\<lparr>thread_count := 1\<rparr>) s5"
  define s7 where "s7 = upd_pcb newproc (\<lambda>p. p\<lparr>main_thread := Some t\<rparr>) s6"
  have eq: "exec_main_thread newproc call al ar s = wakeup t s7"
    using Some
    by (simp add: exec_main_thread_def Let_def spawn_thread_def init_ptcb_def
        s7_def s6_def s5_def s4_def s3_def s2_def s1_def t_def pt_def)
  have 4: "alloc_same s s4"
    by (rule alloc_same_others)
      (simp_all add: s4_def s3_def s2_def s1_def spawn_thread_def init_ptcb_def)
  have 5: "alloc_same s4 s5" unfolding s5_def by (rule upd_pcb_alloc_same) simp_all
  have 6: "alloc_same s5 s6" unfolding s6_def by (rule upd_pcb_alloc_same) simp_all
  have 7: "alloc_same s6 s7" unfolding s7_def by (rule upd_pcb_alloc_same) simp_all
  have 8: "alloc_same s7 (wakeup t s7)" by (rule alloc_same_others) (simp_all add: wakeup_def)
  show ?thesis
    unfolding eq using 4 5 6 7 8 by (blast intro: alloc_same_trans)
qed

lemma acquire_PCB_not_free:
  "acquire_PCB s = (Some p, s0) \<Longrightarrow> p < length (PT s) \<Longrightarrow> pstate (PT s0 ! p) = ALIVE"
  by (auto simp: acquire_PCB_def upd_pcb_def split: option.splits)

lemma sys_Exec_exhausted:
  "pcb_freelist s = None \<Longrightarrow> sys_Exec curproc call al ar s = Done (NOPROC, s)"
  by (simp add: sys_Exec_def acquire_PCB_def)

lemma sys_Exec_unfold:
  assumes "pcb_freelist s = Some n"
  shows "sys_Exec curproc call al ar s =
           (case exec_copy_args n call al ar (exec_inherit curproc n (snd (acquire_PCB s))) of
              Fault \<Rightarrow> Fault
            | Done s2 \<Rightarrow> Done (int n, exec_main_thread n call al ar s2))"
  using assms by (simp add: sys_Exec_def acquire_PCB_def cong: io.case_cong)

lemma sys_Exec_Done:
  assumes "pcb_freelist s = Some n" and "sys_Exec curproc call al ar s = Done (pid, s')"
  obtains s2 where
    "exec_copy_args n call al ar (exec_inherit curproc n (snd (acquire_PCB s))) = Done s2"
    and "s' = exec_main_thread n call al ar s2" and "pid = int n"
  using assms by (auto simp: sys_Exec_unfold split: io.splits)

lemma sys_Exec_null_Done:
  "\<exists>pid s'. sys_Exec curproc call al None s = Done (pid, s')"
  by (cases "pcb_freelist s") (simp_all add: sys_Exec_exhausted sys_Exec_unfold exec_copy_args_null)

lemma sys_Exec_inv:
  assumes inv: "alloc_inv s xs" and len: "length (PT s) < 2 ^ 32"
    and ex: "sys_Exec curproc call al ar s = Done (pid, s')"
  shows "alloc_inv s' (tl xs) \<and> pid = (if xs = [] then NOPROC else int (hd xs))"
proof (cases xs)
  case Nil
  with inv have "pcb_freelist s = None" by (simp add: alloc_inv_def)
  with inv Nil ex show ?thesis by (simp add: sys_Exec_exhausted)
next
  case (Cons x ys)
  obtain s0 where acq: "acquire_PCB s = (Some x, s0)" and inv0: "alloc_inv s0 ys"
    using acquire_PCB_inv [OF inv len] Cons by (cases "acquire_PCB s") simp
  from inv Cons have h: "pcb_freelist s = Some x" and x: "x < length (PT s)"
    by (simp_all add: alloc_inv_def)
  from sys_Exec_Done [OF h ex] acq obtain s2 where
    s2: "exec_copy_args x call al ar (exec_inherit curproc x s0) = Done s2"
    and s': "s' = exec_main_thread x call al ar s2" and pid: "pid = int x"
    by auto
  from x acq have "pstate (PT s0 ! x) \<noteq> FREE" by (simp add: acquire_PCB_not_free)
  then have "alloc_same s0 (exec_inherit curproc x s0)" by (rule exec_inherit_alloc_same)
  then have "alloc_same s0 s'"
    unfolding s' using exec_copy_args_alloc_same [OF s2] exec_main_thread_alloc_same
    by (blast intro: alloc_same_trans)
  with inv0 have "alloc_inv s' ys" by (rule alloc_same_inv)
  with pid Cons show ?thesis by simp
qed


lemma build_freelist_inv:
  assumes "i \<le> length (PT s)"
    and "\<forall>j < length (PT s). pstate (PT s ! j) = FREE"
    and "is_freelist (PT s) (pcb_freelist s) [i ..< length (PT s)]"
    and "\<forall>j < length (PT s). exited_list (PT s ! j) = []"
  shows "length (PT (build_freelist i s)) = length (PT s) \<and>
         (\<forall>j < length (PT s). pstate (PT (build_freelist i s) ! j) = FREE) \<and>
         is_freelist (PT (build_freelist i s)) (pcb_freelist (build_freelist i s)) [0 ..< length (PT s)] \<and>
         process_count (build_freelist i s) = process_count s \<and>
         (\<forall>j < length (PT s). exited_list (PT (build_freelist i s) ! j) = [])"
  using assms
proof (induction i arbitrary: s)
  case 0
  then show ?case by simp
next
  case (Suc i)
  let ?pt = "(PT s)[i := (PT s ! i)\<lparr>parent := pcb_freelist s\<rparr>]"
  let ?s1 = "(upd_pcb i (\<lambda>p. p\<lparr>parent := pcb_freelist s\<rparr>) s)\<lparr>pcb_freelist := Some i\<rparr>"
  from Suc.prems have i: "i < length (PT s)" by simp
  have pt1: "PT ?s1 = ?pt" by (simp add: upd_pcb_def)
  have "pstate (?pt ! j) = FREE" if "j < length (PT s)" for j
    using that Suc.prems(2) by (cases "j = i") simp_all
  then have free1: "\<forall>j < length (PT ?s1). pstate (PT ?s1 ! j) = FREE"
    by (simp add: pt1)
  have "is_freelist ?pt (pcb_freelist s) [Suc i ..< length (PT s)]"
    using Suc.prems(3) by (intro is_freelist_update_other) simp_all
  then have fl1: "is_freelist (PT ?s1) (pcb_freelist ?s1) [i ..< length (PT ?s1)]"
    using i Suc.prems(2) by (simp add: pt1 upt_conv_Cons)
  have "exited_list (?pt ! j) = []" if "j < length (PT s)" for j
    using that Suc.prems(4) by (cases "j = i") simp_all
  then have ex1: "\<forall>j < length (PT ?s1). exited_list (PT ?s1 ! j) = []"
    by (simp add: pt1)
  have "i \<le> length (PT ?s1)" using i by (simp add: pt1)
  from Suc.IH [OF this free1 fl1 ex1] show ?case by (simp add: pt1 upd_pcb_def)
qed

lemma nonfree_count_all_free:
  "\<forall>j < length pt. pstate (pt ! j) = FREE \<Longrightarrow> nonfree_count pt = 0"
  by (auto simp: nonfree_count_def filter_empty_conv in_set_conv_nth)

lemma init_table_inv: "alloc_inv (init_table s) [0 ..< length (PT s)]"
proof -
  let ?s0 = "s\<lparr>PT := map initialize_PCB (PT s), pcb_freelist := None\<rparr>"
  have len: "length (PT ?s0) = length (PT s)" by simp
  have "length (PT s) \<le> length (PT ?s0)" by simp
  moreover have "\<forall>j < length (PT ?s0). pstate (PT ?s0 ! j) = FREE"
    by (simp add: initialize_PCB_def)
  moreover have "is_freelist (PT ?s0) (pcb_freelist ?s0) [length (PT s) ..< length (PT ?s0)]"
    by simp
  moreover have "\<forall>j < length (PT ?s0). exited_list (PT ?s0 ! j) = []"
    by (simp add: initialize_PCB_def)
  ultimately have
    "length (PT (build_freelist (length (PT s)) ?s0)) = length (PT ?s0) \<and>
     (\<forall>j < length (PT ?s0). pstate (PT (build_freelist (length (PT s)) ?s0) ! j) = FREE) \<and>
     is_freelist (PT (build_freelist (length (PT s)) ?s0))
       (pcb_freelist (build_freelist (length (PT s)) ?s0)) [0 ..< length (PT ?s0)] \<and>
     process_count (build_freelist (length (PT s)) ?s0) = process_count ?s0 \<and>
     (\<forall>j < length (PT ?s0). exited_list (PT (build_freelist (length (PT s)) ?s0) ! j) = [])"
    by (rule build_freelist_inv)
  then show ?thesis
    using nonfree_count_all_free [of "PT (build_freelist (length (PT s)) ?s0)"]
    by (simp add: alloc_inv_def init_table_def MAX_PROC_def exited_ok_def)
qed

lemma length_filter_eq_iff: "length (filter P xs) = length xs \<longleftrightarrow> (\<forall>x \<in> set xs. P x)"
proof (induction xs)
  case Nil
  show ?case by simp
next
  case (Cons a xs)
  have "length (filter P xs) \<noteq> Suc (length xs)"
    using length_filter_le [of P xs] by linarith
  with Cons show ?case by (cases "P a") auto
qed

lemma build_freelist_length: "length (PT (build_freelist i s)) = length (PT s)"
  by (induction i arbitrary: s) (simp_all add: upd_pcb_def)

lemma init_table_length: "length (PT (init_table s)) = length (PT s)"
  by (simp add: init_table_def build_freelist_length)

lemma init_table_head:
  assumes "0 < length (PT s)"
  shows "pcb_freelist (init_table s) = Some 0"
proof -
  from assms have "[0 ..< length (PT s)] = 0 # [1 ..< length (PT s)]"
    by (simp add: upt_conv_Cons)
  with init_table_inv [of s] show ?thesis by (simp add: alloc_inv_def)
qed

lemma initialize_processes_idle:
  assumes "0 < MAX_PROC s"
  shows "\<exists>s'. initialize_processes curproc s = Done (Some s') \<and> pstate (PT s' ! 0) = ALIVE \<and>
              parent (PT s' ! 0) = None \<and> unat (process_count s') = 1"
proof -
  have h: "pcb_freelist (init_table s) = Some 0"
    using assms by (simp add: init_table_head MAX_PROC_def)
  have len: "0 < length (PT (init_table s))"
    using assms by (simp add: init_table_length MAX_PROC_def)
  have pc: "process_count (init_table s) = 0" by (simp add: init_table_def)
  show ?thesis
    using h len pc
    by (simp add: initialize_processes_def sys_Exec_def acquire_PCB_def exec_inherit_def
        exec_copy_args_def exec_main_thread_def upd_pcb_def)
qed

lemma alloc_inv_empty_iff:
  assumes "alloc_inv s xs"
  shows "pcb_freelist s = None \<longleftrightarrow> (\<forall>q \<in> set (PT s). pstate q \<noteq> FREE)"
proof -
  have 1: "pcb_freelist s = None \<longleftrightarrow> xs = []"
    using assms by (cases xs) (simp_all add: alloc_inv_def)
  have 2: "xs = [] \<longleftrightarrow> nonfree_count (PT s) = length (PT s)"
    using assms by (auto simp: alloc_inv_def)
  have 3: "nonfree_count (PT s) = length (PT s) \<longleftrightarrow> (\<forall>q \<in> set (PT s). pstate q \<noteq> FREE)"
    unfolding nonfree_count_def by (rule length_filter_eq_iff)
  from 1 2 3 show ?thesis by simp
qed

lemma sys_Exec_NOPROC:
  assumes "sys_Exec curproc call al ar s = Done (pid, s')"
  shows "pid = NOPROC \<longleftrightarrow> pcb_freelist s = None"
proof (cases "pcb_freelist s")
  case None
  with assms show ?thesis by (simp add: sys_Exec_exhausted)
next
  case (Some n)
  from sys_Exec_Done [OF Some assms] have "pid = int n" by auto
  with Some show ?thesis by (simp add: NOPROC_def)
qed

lemma alloc_same_length: "alloc_same s s' \<Longrightarrow> length (PT s') = length (PT s)"
  by (simp add: alloc_same_def)

lemma acquire_PCB_length: "length (PT (snd (acquire_PCB s))) = length (PT s)"
  by (simp add: acquire_PCB_def upd_pcb_def split: option.splits)

lemma sys_Exec_length:
  assumes "alloc_inv s xs" and ex: "sys_Exec curproc call al ar s = Done (pid, s')"
  shows "length (PT s') = length (PT s)"
proof (cases "pcb_freelist s")
  case None
  with ex show ?thesis by (simp add: sys_Exec_exhausted)
next
  case (Some x)
  define s0 where "s0 = snd (acquire_PCB s)"
  have acq: "acquire_PCB s = (Some x, s0)"
    using Some by (simp add: s0_def acquire_PCB_def)
  have len0: "length (PT s0) = length (PT s)"
    unfolding s0_def by (rule acquire_PCB_length)
  from sys_Exec_Done [OF Some ex] obtain s2 where
    s2: "exec_copy_args x call al ar (exec_inherit curproc x s0) = Done s2"
    and s': "s' = exec_main_thread x call al ar s2"
    unfolding s0_def by auto
  from Some assms(1) have "x < length (PT s)" by (cases xs) (simp_all add: alloc_inv_def)
  with acq have "pstate (PT s0 ! x) \<noteq> FREE" by (simp add: acquire_PCB_not_free)
  then have "alloc_same s0 (exec_inherit curproc x s0)" by (rule exec_inherit_alloc_same)
  then have "alloc_same s0 s'"
    unfolding s' using exec_copy_args_alloc_same [OF s2] exec_main_thread_alloc_same
    by (blast intro: alloc_same_trans)
  from alloc_same_length [OF this] len0 show ?thesis by simp
qed

lemma run_execs_pids:
  assumes "alloc_inv s xs" and "length (PT s) < 2 ^ 32" and "length cs = length xs"
    and "run_execs (cs @ [c]) s = Done (pids, s')"
  shows "pids = map int xs @ [NOPROC]"
  using assms
proof (induction cs arbitrary: s xs pids)
  case Nil
  then obtain curproc call al ar where c: "c = (curproc, call, al, ar)" by (cases c) auto
  from Nil(4) obtain pid where ex: "sys_Exec curproc call al ar s = Done (pid, s')"
    and pids: "pids = [pid]"
    by (auto simp: c split: io.splits)
  from sys_Exec_inv [OF Nil(1,2) ex] Nil(3) pids show ?case by simp
next
  case (Cons d cs)
  obtain curproc call al ar where d: "d = (curproc, call, al, ar)" by (cases d) auto
  from Cons.prems obtain x ys where xs: "xs = x # ys" by (cases xs) auto
  from Cons.prems(4) obtain pid s1 pids' where
    ex: "sys_Exec curproc call al ar s = Done (pid, s1)"
    and rest: "run_execs (cs @ [c]) s1 = Done (pids', s')" and pids: "pids = pid # pids'"
    by (auto simp: d split: io.splits)
  have 1: "alloc_inv s1 ys" and 2: "pid = int x"
    using sys_Exec_inv [OF Cons.prems(1,2) ex] xs by simp_all
  have 3: "length (PT s1) < 2 ^ 32"
    using Cons.prems(2) sys_Exec_length [OF Cons.prems(1) ex] by simp
  have 4: "length cs = length ys" using Cons.prems(3) xs by simp
  from Cons.IH [OF 1 3 4 rest] 2 pids xs show ?case by simp
qed

lemma run_execs_null_Done:
  assumes "\<forall>c \<in> set cs. snd (snd (snd c)) = None"
  shows "\<exists>pids s'. run_execs cs s = Done (pids, s')"
  using assms
proof (induction cs arbitrary: s)
  case Nil
  show ?case by simp
next
  case (Cons c cs)
  obtain curproc call al where c: "c = (curproc, call, al, None)"
    using Cons.prems by (cases c) auto
  obtain pid s1 where ex: "sys_Exec curproc call al None s = Done (pid, s1)"
    using sys_Exec_null_Done by blast
  from Cons.IH [of s1] Cons.prems obtain pids s' where "run_execs cs s1 = Done (pids, s')"
    by auto
  with ex c show ?case by simp
qed


lemma rlist_remove_children_node_alloc_same: "alloc_same s (rlist_remove_children_node p s)"
  by (simp add: alloc_same_def rlist_remove_children_node_def)

lemma rlist_remove_exited_node_alloc_same: "alloc_same s (rlist_remove_exited_node p s)"
  by (auto simp: alloc_same_def rlist_remove_exited_node_def)

lemma cleanup_zombie_inv:
  assumes inv: "alloc_inv s xs" and p: "p < length (PT s)" and nf: "pstate (PT s ! p) \<noteq> FREE"
  shows "alloc_inv (snd (cleanup_zombie p st s)) (p # xs)"
proof -
  let ?s2 = "rlist_remove_exited_node p (rlist_remove_children_node p s)"
  have same: "alloc_same s ?s2"
    using rlist_remove_children_node_alloc_same rlist_remove_exited_node_alloc_same
    by (rule alloc_same_trans)
  then have "alloc_inv ?s2 xs" using inv alloc_same_inv by blast
  moreover from same p have "p < length (PT ?s2)" by (simp add: alloc_same_def)
  moreover from same p nf have "pstate (PT ?s2 ! p) \<noteq> FREE" by (simp add: alloc_same_def)
  ultimately have "alloc_inv (release_PCB p ?s2) (p # xs)" by (rule release_PCB_inv)
  then show ?thesis by (simp add: cleanup_zombie_def Let_def)
qed

lemma sys_WaitChild_inv:
  assumes inv: "alloc_inv s xs" and c: "c < length (PT s)"
  shows "\<exists>ys. alloc_inv (kst (sys_WaitChild c [] cpid st s)) ys"
proof (cases "cpid \<noteq> NOPROC")
  case True
  show ?thesis
  proof (cases "cpid < 0 \<or> cpid \<ge> int (MAX_PROC s) \<or> get_pcb s (nat cpid) = None
                \<or> parent (PT s ! nat cpid) \<noteq> Some c \<or> pstate (PT s ! nat cpid) = ALIVE")
    case True
    with \<open>cpid \<noteq> NOPROC\<close> inv show ?thesis
      by (auto simp: sys_WaitChild_def wait_for_specific_child_def Let_def)
  next
    case False
    then have "nat cpid < length (PT s)" and "pstate (PT s ! nat cpid) \<noteq> FREE"
      by (auto simp: MAX_PROC_def get_pcb_def split: if_splits)
    with inv have "alloc_inv (snd (cleanup_zombie (nat cpid) st s)) (nat cpid # xs)"
      by (rule cleanup_zombie_inv)
    with False \<open>cpid \<noteq> NOPROC\<close> show ?thesis
      by (auto simp: sys_WaitChild_def wait_for_specific_child_def Let_def split: prod.splits)
  qed
next
  case False
  show ?thesis
  proof (cases "children_list (PT s ! c) \<noteq> [] \<and> exited_list (PT s ! c) \<noteq> []
                \<and> pstate (PT s ! hd (exited_list (PT s ! c))) = ZOMBIE")
    case True
    let ?ch = "hd (exited_list (PT s ! c))"
    from True have "?ch \<in> set (exited_list (PT s ! c))" by simp
    with inv c have "?ch < length (PT s)" by (simp add: alloc_inv_def exited_ok_def)
    moreover from True have "pstate (PT s ! ?ch) \<noteq> FREE" by simp
    ultimately have "alloc_inv (snd (cleanup_zombie ?ch st s)) (?ch # xs)"
      using inv by (intro cleanup_zombie_inv)
    with True False show ?thesis
      by (auto simp: sys_WaitChild_def is_rlist_empty_def Let_def split: prod.splits)
  next
    case F: False
    with False inv show ?thesis
      by (auto simp: sys_WaitChild_def is_rlist_empty_def Let_def)
  qed
qed

lemma cleanup_zombie_length: "length (PT (snd (cleanup_zombie p st s))) = length (PT s)"
  by (simp add: cleanup_zombie_def Let_def release_PCB_def upd_pcb_def
      rlist_remove_exited_node_def rlist_remove_children_node_def)

lemma sys_WaitChild_length: "length (PT (kst (sys_WaitChild c [] cpid st s))) = length (PT s)"
  using cleanup_zombie_length [of "nat cpid" st s]
    cleanup_zombie_length [of "hd (exited_list (PT s ! c))" st s]
  by (auto simp: sys_WaitChild_def wait_for_specific_child_def is_rlist_empty_def Let_def
      split: prod.splits)

lemma exit_drain_inv:
  assumes "exit_drain cur envs s = Some res"
  shows "envs = [] \<longrightarrow> (\<exists>xs. alloc_inv s xs) \<longrightarrow> cur < length (PT s) \<longrightarrow>
         (\<exists>ys. alloc_inv (snd res) ys) \<and> length (PT (snd res)) = length (PT s)"
  using assms
proof (induction cur envs s res rule: exit_drain.raw_induct [rotated, consumes 1])
  case (1 exit_drain' cur envs s res)
  show ?case
  proof (intro impI)
    assume envs: "envs = []" and inv: "\<exists>xs. alloc_inv s xs" and cur: "cur < length (PT s)"
    define r where "r = sys_WaitChild cur [] NOPROC None s"
    from inv obtain xs where "alloc_inv s xs" ..
    then have k: "\<exists>ys. alloc_inv (kst r) ys" "length (PT (kst r)) = length (PT s)"
      using sys_WaitChild_inv [of s xs cur NOPROC None] cur
      by (simp_all add: r_def sys_WaitChild_length)
    show "(\<exists>ys. alloc_inv (snd res) ys) \<and> length (PT (snd res)) = length (PT s)"
    proof (cases "ret r")
      case (Returned pid)
      show ?thesis
      proof (cases "pid = NOPROC")
        case True
        with 1(2) Returned k envs show ?thesis by (auto simp: Let_def r_def [symmetric])
      next
        case False
        with 1(2) Returned envs have "exit_drain' cur [] (kst r) = Some res"
          by (simp add: Let_def r_def [symmetric])
        from 1(1) [OF this] k cur show ?thesis by simp
      qed
    next
      case Blocked
      with 1(2) k envs show ?thesis by (auto simp: Let_def r_def [symmetric])
    next
      case AssertFailed
      with 1(2) k envs show ?thesis by (auto simp: Let_def r_def [symmetric])
    qed
  qed
qed

lemma run_call_inv:
  assumes "alloc_inv s xs" and "length (PT s) < 2 ^ 32" and "legal_call c s"
  shows "(\<exists>ys. alloc_inv (run_call c s) ys) \<and> length (PT (run_call c s)) = length (PT s)"
proof (cases c)
  case Acquire
  with assms acquire_PCB_inv [of s xs] show ?thesis by (auto simp: acquire_PCB_length)
next
  case (Release p)
  with assms release_PCB_inv [of s xs p] show ?thesis
    by (auto simp: MAX_PROC_def release_PCB_def upd_pcb_def)
next
  case (Exec cur call al ar)
  with assms(3) obtain pid s' where ex: "sys_Exec cur call al ar s = Done (pid, s')"
    by (cases "sys_Exec cur call al ar s") auto
  from sys_Exec_inv [OF assms(1,2) ex] sys_Exec_length [OF assms(1) ex] Exec ex
  show ?thesis by auto
next
  case (WaitChild cur cpid st)
  with assms sys_WaitChild_inv [of s xs cur cpid st] show ?thesis
    by (simp add: MAX_PROC_def sys_WaitChild_length)
next
  case (Exit cur ev)
  define s1 where "s1 = (if ev \<noteq> 0 then upd_pcb cur (\<lambda>p. p\<lparr>exitval := ev\<rparr>) s else s)"
  have "alloc_same s s1"
    unfolding s1_def by (simp add: alloc_same_refl upd_pcb_alloc_same)
  with assms(1) have inv1: "alloc_inv s1 xs" and len1: "length (PT s1) = length (PT s)"
    by (auto intro: alloc_same_inv simp: alloc_same_def)
  from Exit assms(3) have cur1: "cur < length (PT s1)" by (simp add: len1 MAX_PROC_def)
  have eq: "sys_Exit cur [] ev s = (if cur = 1 then exit_drain cur [] s1 else Some (Returned (), s1))"
    by (cases "ev = 0") (simp_all add: sys_Exit_def s1_def)
  show ?thesis
  proof (cases "sys_Exit cur [] ev s")
    case None
    with Exit assms(1) show ?thesis by auto
  next
    case (Some res)
    have "(\<exists>ys. alloc_inv (snd res) ys) \<and> length (PT (snd res)) = length (PT s1)"
    proof (cases "cur = 1")
      case True
      with Some eq have "exit_drain cur [] s1 = Some res" by simp
      from exit_drain_inv [OF this] inv1 cur1 show ?thesis by blast
    next
      case False
      with Some eq inv1 show ?thesis by auto
    qed
    with Some Exit len1 show ?thesis by (cases res) simp
  qed
qed

lemma run_calls_inv:
  assumes "alloc_inv s xs" and "length (PT s) < 2 ^ 32" and "legal_calls cs s"
  shows "\<exists>ys. alloc_inv (run_calls cs s) ys"
  using assms
proof (induction cs arbitrary: s xs)
  case Nil
  then show ?case by auto
next
  case (Cons c cs)
  from Cons.prems have "legal_call c s" and rest: "legal_calls cs (run_call c s)" by simp_all
  with Cons.prems(1,2) run_call_inv [of s xs c]
  obtain ys where "alloc_inv (run_call c s) ys" and "length (PT (run_call c s)) < 2 ^ 32"
    by auto
  from Cons.IH [OF this rest] show ?case by simp
qed

lemmas model_defs = sys_WaitChild_def wait_for_specific_child_def cleanup_zombie_def
  rlist_remove_children_node_def rlist_remove_exited_node_def release_PCB_def acquire_PCB_def
  upd_pcb_def is_rlist_empty_def rlist_push_front_def rlist_push_back_def MAX_PROC_def
  MAX_FILEID_def get_pcb_def NOPROC_def sys_Exec_def exec_inherit_def exec_copy_args_def
  exec_main_thread_def malloc_def memcpy_def size_t_def spawn_thread_def init_ptcb_def
  wakeup_def FCB_incref_def Let_def

lemma sample_state_inv: "alloc_inv sample_state [3]"
  by (simp add: alloc_inv_def sample_state_def sample_PCB_def nonfree_count_def exited_ok_def
      less_Suc_eq all_conj_distrib)

text \<open>
  Sequences without a resumed wait keep the count. From a state in which the free list
  holds exactly the \<^verbatim>\<open>FREE\<close> slots and \<^verbatim>\<open>process_count\<close> counts the others (as after
  boot), every sequence of \<^verbatim>\<open>acquire_PCB\<close>, \<^verbatim>\<open>release_PCB\<close>, \<^verbatim>\<open>sys_Exec\<close>, \<^verbatim>\<open>sys_WaitChild\<close>
  and \<^verbatim>\<open>sys_Exit\<close> calls in which \<^verbatim>\<open>release_PCB\<close> is given slots in use and no caller is
  resumed after a suspension ends in a state where \<^verbatim>\<open>process_count\<close> is the number of
  slots that are not \<^verbatim>\<open>FREE\<close>. \<^verbatim>\<open>acquire_PCB\<close> adds one exactly when it takes the head of
  the free list and marks it \<^verbatim>\<open>ALIVE\<close>, and otherwise changes nothing; \<^verbatim>\<open>release_PCB\<close>
  marks the slot \<^verbatim>\<open>FREE\<close>, pushes it on the free list and subtracts one, whatever the
  state of the slot was.
\<close>

lemma process_count_unsuspended:
  assumes "alloc_inv s xs" and "MAX_PROC s < 2 ^ 32" and "legal_calls cs s"
  shows "unat (process_count (run_calls cs s)) = nonfree_count (PT (run_calls cs s)) \<and>
         (case acquire_PCB s of
            (None, s') \<Rightarrow> pcb_freelist s = None \<and> s' = s
          | (Some p, s') \<Rightarrow>
              pcb_freelist s = Some p \<and> pcb_freelist s' = parent (PT s ! p) \<and>
              pstate (PT s' ! p) = ALIVE \<and> process_count s' = process_count s + 1) \<and>
         (p < MAX_PROC s \<longrightarrow>
            pstate (PT (release_PCB p s) ! p) = FREE \<and>
            parent (PT (release_PCB p s) ! p) = pcb_freelist s) \<and>
         pcb_freelist (release_PCB p s) = Some p \<and>
         process_count (release_PCB p s) = process_count s - 1"
proof -
  from assms run_calls_inv [of s xs cs]
  obtain ys where "alloc_inv (run_calls cs s) ys" by (auto simp: MAX_PROC_def)
  then have 1: "unat (process_count (run_calls cs s)) = nonfree_count (PT (run_calls cs s))"
    by (simp add: alloc_inv_def)
  have 2: "case acquire_PCB s of
            (None, s') \<Rightarrow> pcb_freelist s = None \<and> s' = s
          | (Some p, s') \<Rightarrow>
              pcb_freelist s = Some p \<and> pcb_freelist s' = parent (PT s ! p) \<and>
              pstate (PT s' ! p) = ALIVE \<and> process_count s' = process_count s + 1"
  proof (cases xs)
    case Nil
    with assms(1) show ?thesis by (simp add: alloc_inv_def acquire_PCB_def)
  next
    case (Cons x ys)
    with assms(1) have "pcb_freelist s = Some x" "x < length (PT s)"
      by (simp_all add: alloc_inv_def)
    then show ?thesis by (simp add: acquire_PCB_def upd_pcb_def)
  qed
  have 3: "(p < MAX_PROC s \<longrightarrow>
            pstate (PT (release_PCB p s) ! p) = FREE \<and>
            parent (PT (release_PCB p s) ! p) = pcb_freelist s) \<and>
         pcb_freelist (release_PCB p s) = Some p \<and>
         process_count (release_PCB p s) = process_count s - 1"
    by (simp add: release_PCB_def upd_pcb_def MAX_PROC_def)
  from 1 2 3 show ?thesis by blast
qed

lemma sample_alive_inv: "alloc_inv sample_alive [3]"
  by (simp add: alloc_inv_def sample_alive_def sample_state_def sample_PCB_def nonfree_count_def
      exited_ok_def less_Suc_eq all_conj_distrib)

text \<open>
  Claim C1. \<^verbatim>\<open>process_count\<close> does not stay equal to the number of slots that are not
  \<^verbatim>\<open>FREE\<close>. A \<^verbatim>\<open>sys_WaitChild\<close> for a specific child that was suspended in
  \<^verbatim>\<open>kernel_wait\<close> leaves its loop as soon as the child is not \<^verbatim>\<open>ALIVE\<close> and calls
  \<^verbatim>\<open>cleanup_zombie\<close>, hence \<^verbatim>\<open>release_PCB\<close>, without checking that the slot is a
  \<^verbatim>\<open>ZOMBIE\<close>. Process 1 waits for its live child 2 on a table that satisfies the
  allocator's invariant. While the caller is suspended the child becomes a zombie and
  another thread of process 1 reaps it with \<^verbatim>\<open>sys_WaitChild(2)\<close>, which returns 2, frees
  slot 2 and keeps the invariant. The resumed call finds the slot \<^verbatim>\<open>FREE\<close>, releases it
  a second time and returns 2: \<^verbatim>\<open>process_count\<close> is 1 while two slots are in use, and
  slot 2 is its own successor on the free list.
\<close>

theorem sys_WaitChild_releases_twice:
  "alloc_inv sample_alive [3] \<and>
   ret (sys_WaitChild 1 [] 2 None (upd_pcb 2 (\<lambda>p. p\<lparr>pstate := ZOMBIE\<rparr>) sample_alive))
     = Returned 2 \<and>
   alloc_inv (sibling_reaps 1 2 sample_alive) [2, 3] \<and>
   ret (sys_WaitChild 1 [sibling_reaps 1 2] 2 None sample_alive) = Returned 2 \<and>
   waits (sys_WaitChild 1 [sibling_reaps 1 2] 2 None sample_alive) = 1 \<and>
   unat (process_count (kst (sys_WaitChild 1 [sibling_reaps 1 2] 2 None sample_alive))) = 1 \<and>
   nonfree_count (PT (kst (sys_WaitChild 1 [sibling_reaps 1 2] 2 None sample_alive))) = 2 \<and>
   pcb_freelist (kst (sys_WaitChild 1 [sibling_reaps 1 2] 2 None sample_alive)) = Some 2 \<and>
   parent (PT (kst (sys_WaitChild 1 [sibling_reaps 1 2] 2 None sample_alive)) ! 2) = Some 2"
proof -
  have z: "upd_pcb 2 (\<lambda>p. p\<lparr>pstate := ZOMBIE\<rparr>) sample_alive =
           sample_state\<lparr>PT := [sample_PCB ALIVE None [] [], sample_PCB ALIVE None [2] [],
              sample_PCB ZOMBIE (Some 1) [] [], sample_PCB FREE None [] []]\<rparr>"
    by (simp add: sample_alive_def sample_state_def sample_PCB_def upd_pcb_def)
  have r1: "sys_WaitChild 1 [] 2 None (upd_pcb 2 (\<lambda>p. p\<lparr>pstate := ZOMBIE\<rparr>) sample_alive) =
            \<lparr>ret = Returned 2, status_out = None,
             kst = sample_state\<lparr>PT := [sample_PCB ALIVE None [] [], sample_PCB ALIVE None [] [],
                     sample_PCB FREE (Some 3) [] [], sample_PCB FREE None [] []],
                   process_count := 2, pcb_freelist := Some 2\<rparr>,
             waits = 0\<rparr>"
    unfolding z by (simp add: sample_state_def sample_PCB_def model_defs)
  have e: "sibling_reaps 1 2 sample_alive =
           sample_state\<lparr>PT := [sample_PCB ALIVE None [] [], sample_PCB ALIVE None [] [],
                     sample_PCB FREE (Some 3) [] [], sample_PCB FREE None [] []],
                   process_count := 2, pcb_freelist := Some 2\<rparr>"
    using r1 by (simp add: sibling_reaps_def)
  have inv: "alloc_inv (sibling_reaps 1 2 sample_alive) [2, 3]"
    unfolding e
    by (simp add: alloc_inv_def sample_state_def sample_PCB_def nonfree_count_def exited_ok_def
        less_Suc_eq all_conj_distrib)
  have a: "pstate (PT sample_alive ! 2) = ALIVE" "parent (PT sample_alive ! 2) = Some 1"
    "length (PT sample_alive) = 4"
    by (simp_all add: sample_alive_def sample_state_def sample_PCB_def)
  have r2: "sys_WaitChild 1 [sibling_reaps 1 2] 2 None sample_alive =
            \<lparr>ret = Returned 2, status_out = None,
             kst = sample_state\<lparr>PT := [sample_PCB ALIVE None [] [], sample_PCB ALIVE None [] [],
                     sample_PCB FREE (Some 2) [] [], sample_PCB FREE None [] []],
                   process_count := 1, pcb_freelist := Some 2\<rparr>,
             waits = 1\<rparr>"
    using a e
    by (simp add: sys_WaitChild_def wait_for_specific_child_def MAX_PROC_def get_pcb_def
        NOPROC_def)
      (simp add: sample_state_def sample_PCB_def cleanup_zombie_def release_PCB_def upd_pcb_def
        rlist_remove_children_node_def rlist_remove_exited_node_def)
  show ?thesis
    unfolding r2 using sample_alive_inv inv r1
    by (simp add: sample_state_def sample_PCB_def nonfree_count_def)
qed

text \<open>
  What holds of the PIDs that \<^verbatim>\<open>sys_Exec\<close> returns: a call that returns gives \<^verbatim>\<open>NOPROC\<close>
  exactly when the free list is empty, which under the allocator's invariant is
  exactly when no slot is \<^verbatim>\<open>FREE\<close>; a call with a null argument pointer always
  returns. On a freshly initialised table of capacity N, N calls of \<^verbatim>\<open>sys_Exec\<close> with no
  exit between return the PIDs 0, ..., N-1 and the next call returns \<^verbatim>\<open>NOPROC\<close>.
\<close>

lemma sys_Exec_NOPROC_iff_exhausted:
  assumes "alloc_inv s xs" and "MAX_PROC s0 < 2 ^ 32" and "length cs = MAX_PROC s0"
  shows "(sys_Exec curproc call al ar s = Done (pid, s') \<longrightarrow>
            (pid = NOPROC \<longleftrightarrow> pcb_freelist s = None)) \<and>
         (pcb_freelist s = None \<longleftrightarrow> (\<forall>q \<in> set (PT s). pstate q \<noteq> FREE)) \<and>
         (run_execs (cs @ [c]) (init_table s0) = Done (pids, s1) \<longrightarrow>
            pids = map int [0 ..< MAX_PROC s0] @ [NOPROC]) \<and>
         ((\<forall>d \<in> set (cs @ [c]). snd (snd (snd d)) = None) \<longrightarrow>
            (\<exists>s1. run_execs (cs @ [c]) (init_table s0) =
                     Done (map int [0 ..< MAX_PROC s0] @ [NOPROC], s1)))"
proof -
  have len: "length (PT (init_table s0)) = length (PT s0)"
    by (rule init_table_length)
  have 1: "pids = map int [0 ..< length (PT s0)] @ [NOPROC]"
    if "run_execs (cs @ [c]) (init_table s0) = Done (pids, s1)" for pids s1
    by (rule run_execs_pids [OF init_table_inv _ _ that])
      (use assms len in \<open>simp_all add: MAX_PROC_def\<close>)
  have 2: "\<exists>s1. run_execs (cs @ [c]) (init_table s0) =
                     Done (map int [0 ..< MAX_PROC s0] @ [NOPROC], s1)"
    if "\<forall>d \<in> set (cs @ [c]). snd (snd (snd d)) = None"
    using run_execs_null_Done [OF that, of "init_table s0"] 1 by (auto simp: MAX_PROC_def)
  from 1 2 sys_Exec_NOPROC [of curproc call al ar s pid s'] alloc_inv_empty_iff [OF assms(1)]
  show ?thesis by (auto simp: MAX_PROC_def)
qed

text \<open>
  Claim C2. Table exhaustion is not the only way \<^verbatim>\<open>sys_Exec\<close> fails. With a non-null
  argument pointer the result of \<^verbatim>\<open>malloc(argl)\<close> is handed to \<^verbatim>\<open>memcpy\<close> unchecked. On
  a table that satisfies the allocator's invariant and has a free slot, the call with
  \<^verbatim>\<open>argl = -1\<close> asks for \<open>2 ^ 64 - 1\<close> bytes, gets \<^verbatim>\<open>NULL\<close> and faults in \<^verbatim>\<open>memcpy\<close>; so
  does the call with \<^verbatim>\<open>argl = 3\<close> when the heap has two bytes left. Neither returns
  \<^verbatim>\<open>NOPROC\<close> or any other PID. The same call with \<^verbatim>\<open>argl = 3\<close> and room on the heap
  returns the PID of the free slot.
\<close>

theorem sys_Exec_faults_with_free_slot:
  "alloc_inv (sample_state\<lparr>mem := [''abc'']\<rparr>) [3] \<and>
   pcb_freelist (sample_state\<lparr>mem := [''abc'']\<rparr>) = Some 3 \<and>
   sys_Exec 1 (Some 7) (- 1) (Some 0) (sample_state\<lparr>mem := [''abc'']\<rparr>) = Fault \<and>
   sys_Exec 1 (Some 7) 3 (Some 0) (sample_state\<lparr>mem := [''abc''], heap_free := 2\<rparr>) = Fault \<and>
   (\<exists>s'. sys_Exec 1 (Some 7) 3 (Some 0) (sample_state\<lparr>mem := [''abc'']\<rparr>) = Done (3, s'))"
proof -
  have 1: "alloc_inv (sample_state\<lparr>mem := [''abc'']\<rparr>) [3]"
    using sample_state_inv by (simp add: alloc_inv_def exited_ok_def)
  have 2: "pcb_freelist (sample_state\<lparr>mem := [''abc'']\<rparr>) = Some 3"
    by (simp add: sample_state_def)
  have m: "size_t (- 1) = 18446744073709551615" "size_t 3 = 3"
    by (simp_all add: size_t_def)
  have 3: "sys_Exec 1 (Some 7) (- 1) (Some 0) (sample_state\<lparr>mem := [''abc'']\<rparr>) = Fault"
    by (simp add: sys_Exec_def exec_copy_args_def malloc_def memcpy_def m Let_def
        upd_pcb_def exec_inherit_def acquire_PCB_def sample_state_def sample_PCB_def
        MAX_FILEID_def FCB_incref_def rlist_push_front_def)
  have 4: "sys_Exec 1 (Some 7) 3 (Some 0) (sample_state\<lparr>mem := [''abc''], heap_free := 2\<rparr>)
             = Fault"
    by (simp add: sys_Exec_def exec_copy_args_def malloc_def memcpy_def m Let_def
        upd_pcb_def exec_inherit_def acquire_PCB_def sample_state_def sample_PCB_def
        MAX_FILEID_def FCB_incref_def rlist_push_front_def)
  have 5: "\<exists>s'. sys_Exec 1 (Some 7) 3 (Some 0) (sample_state\<lparr>mem := [''abc'']\<rparr>) = Done (3, s')"
    by (simp add: sys_Exec_def exec_copy_args_def malloc_def memcpy_def m Let_def
        upd_pcb_def exec_inherit_def acquire_PCB_def sample_state_def sample_PCB_def
        MAX_FILEID_def FCB_incref_def rlist_push_front_def exec_main_thread_def
        spawn_thread_def init_ptcb_def wakeup_def rlist_push_back_def)
  from 1 2 3 4 5 show ?thesis by blast
qed

text \<open>
  Claim C10. The free list is a stack: for a slot \<open>p\<close> of the table, \<^verbatim>\<open>release_PCB(p)\<close>
  followed by \<^verbatim>\<open>acquire_PCB()\<close> returns \<open>p\<close>, with \<open>p\<close> marked \<^verbatim>\<open>ALIVE\<close> again and with
  \<^verbatim>\<open>process_count\<close> and the head of the free list as they were before the release; a
  \<^verbatim>\<open>sys_Exec\<close> that follows the release reuses the PID \<open>p\<close>: every such call that
  returns gives \<open>p\<close>, and with a null argument pointer the call does return.
\<close>

theorem release_acquire_roundtrip:
  assumes "p < MAX_PROC s"
  shows "fst (acquire_PCB (release_PCB p s)) = Some p \<and>
         pstate (PT (snd (acquire_PCB (release_PCB p s))) ! p) = ALIVE \<and>
         process_count (snd (acquire_PCB (release_PCB p s))) = process_count s \<and>
         pcb_freelist (snd (acquire_PCB (release_PCB p s))) = pcb_freelist s \<and>
         (\<forall>pid s'. sys_Exec curproc call al ar (release_PCB p s) = Done (pid, s')
            \<longrightarrow> pid = int p) \<and>
         (\<exists>s'. sys_Exec curproc call al None (release_PCB p s) = Done (int p, s'))"
proof -
  have h: "pcb_freelist (release_PCB p s) = Some p" by (simp add: release_PCB_def)
  have 1: "pid = int p" if "sys_Exec curproc call al ar (release_PCB p s) = Done (pid, s')"
    for pid s'
    using sys_Exec_Done [OF h that] by auto
  have 2: "\<exists>s'. sys_Exec curproc call al None (release_PCB p s) = Done (int p, s')"
    by (simp add: sys_Exec_unfold [OF h] exec_copy_args_null)
  from assms 1 2 show ?thesis
    by (simp add: acquire_PCB_def release_PCB_def upd_pcb_def MAX_PROC_def)
qed

theorem release_acquire_roundtrip_witness:
  "fst (acquire_PCB (release_PCB 2 sample_state)) = Some 2 \<and>
   process_count (snd (acquire_PCB (release_PCB 2 sample_state))) = 3 \<and>
   (\<exists>s'. sys_Exec 1 (Some 7) 0 None (release_PCB 2 sample_state) = Done (2, s')) \<and>
   (\<exists>s'. sys_Exec 1 (Some 7) 3 (Some 0) (release_PCB 2 (sample_state\<lparr>mem := [''abc'']\<rparr>))
           = Done (2, s'))"
proof -
  have 1: "2 < MAX_PROC sample_state" "2 < MAX_PROC (sample_state\<lparr>mem := [''abc'']\<rparr>)"
    by (simp_all add: MAX_PROC_def sample_state_def)
  have 2: "process_count sample_state = 3" by (simp add: sample_state_def)
  have h: "pcb_freelist (release_PCB 2 (sample_state\<lparr>mem := [''abc'']\<rparr>)) = Some 2"
    by (simp add: release_PCB_def)
  have m: "size_t 3 = 3" by (simp add: size_t_def)
  have "sys_Exec 1 (Some 7) 3 (Some 0) (release_PCB 2 (sample_state\<lparr>mem := [''abc'']\<rparr>)) \<noteq> Fault"
    by (simp add: sys_Exec_def exec_copy_args_def malloc_def memcpy_def m Let_def
        upd_pcb_def exec_inherit_def acquire_PCB_def release_PCB_def sample_state_def
        sample_PCB_def MAX_FILEID_def FCB_incref_def rlist_push_front_def)
  then obtain pid s' where
    3: "sys_Exec 1 (Some 7) 3 (Some 0) (release_PCB 2 (sample_state\<lparr>mem := [''abc'']\<rparr>))
          = Done (pid, s')"
    by (cases "sys_Exec 1 (Some 7) 3 (Some 0) (release_PCB 2 (sample_state\<lparr>mem := [''abc'']\<rparr>))")
      auto
  from release_acquire_roundtrip [OF 1(1), of 1 "Some 7" 0 None]
    release_acquire_roundtrip [OF 1(2), of 1 "Some 7" 3 "Some 0"] 2 3
  show ?thesis by simp
qed

subsection \<open>Waiting, and the parent of a process\<close>

lemma wait_for_any_child_Nil:
  "wait_for_any_child curproc [] status s =
     (if is_rlist_empty (children_list (PT s ! curproc))
      then \<lparr>ret = Returned NOPROC, status_out = status, kst = s, waits = 0\<rparr>
      else if \<not> is_rlist_empty (exited_list (PT s ! curproc))
      then
        (let child = hd (exited_list (PT s ! curproc)) in
         if pstate (PT s ! child) \<noteq> ZOMBIE
         then \<lparr>ret = AssertFailed, status_out = status, kst = s, waits = 0\<rparr>
         else
           (case cleanup_zombie child status s of
              (status', s') \<Rightarrow>
                \<lparr>ret = Returned (get_pid (Some child)), status_out = status', kst = s', waits = 0\<rparr>))
      else \<lparr>ret = Blocked, status_out = status, kst = s, waits = 0\<rparr>)"
  by (simp add: Let_def)

lemma wait_for_any_child_Cons:
  "wait_for_any_child curproc (e # es) status s =
     (if is_rlist_empty (children_list (PT s ! curproc))
      then \<lparr>ret = Returned NOPROC, status_out = status, kst = s, waits = 0\<rparr>
      else if \<not> is_rlist_empty (exited_list (PT s ! curproc))
      then
        (let child = hd (exited_list (PT s ! curproc)) in
         if pstate (PT s ! child) \<noteq> ZOMBIE
         then \<lparr>ret = AssertFailed, status_out = status, kst = s, waits = 0\<rparr>
         else
           (case cleanup_zombie child status s of
              (status', s') \<Rightarrow>
                \<lparr>ret = Returned (get_pid (Some child)), status_out = status', kst = s', waits = 0\<rparr>))
      else (wait_for_any_child curproc es status (e s))
             \<lparr>waits := Suc (waits (wait_for_any_child curproc es status (e s)))\<rparr>)"
  by (simp add: Let_def)

declare wait_for_any_child.simps [simp del]
declare wait_for_any_child_Nil [simp] wait_for_any_child_Cons [simp]

lemma wait_while_alive_not_NOPROC:
  "0 \<le> cpid \<Longrightarrow> ret (wait_while_alive child envs cpid status s) \<noteq> Returned NOPROC"
  by (induction envs arbitrary: s) (auto simp: NOPROC_def Let_def split: prod.splits)

text \<open>
  Claim C3. \<^verbatim>\<open>sys_WaitChild\<close> returns \<^verbatim>\<open>NOPROC\<close> without a single \<^verbatim>\<open>kernel_wait\<close> exactly
  in these cases: for a specific child, when the PID is outside the table, or names a
  \<^verbatim>\<open>FREE\<close> slot, or names a process whose parent is not the caller; for any child, when
  the caller's list of children is empty. The state and \<^verbatim>\<open>*status\<close> are then unchanged.
\<close>

theorem sys_WaitChild_NOPROC_immediately:
  "(ret (sys_WaitChild curproc envs cpid status s) = Returned NOPROC \<and>
    waits (sys_WaitChild curproc envs cpid status s) = 0
    \<longleftrightarrow>
    (if cpid \<noteq> NOPROC
     then cpid < 0 \<or> int (MAX_PROC s) \<le> cpid \<or> pstate (PT s ! nat cpid) = FREE \<or>
          parent (PT s ! nat cpid) \<noteq> Some curproc
     else children_list (PT s ! curproc) = []))
   \<and>
   (ret (sys_WaitChild curproc envs cpid status s) = Returned NOPROC \<and>
    waits (sys_WaitChild curproc envs cpid status s) = 0
    \<longrightarrow> kst (sys_WaitChild curproc envs cpid status s) = s \<and>
        status_out (sys_WaitChild curproc envs cpid status s) = status)"
proof (cases "cpid \<noteq> NOPROC")
  case True
  show ?thesis
  proof (cases "cpid < 0 \<or> int (MAX_PROC s) \<le> cpid \<or> pstate (PT s ! nat cpid) = FREE \<or>
          parent (PT s ! nat cpid) \<noteq> Some curproc")
    case T: True
    with True show ?thesis
      by (auto simp: sys_WaitChild_def wait_for_specific_child_def get_pcb_def Let_def)
  next
    case False
    then have "0 \<le> cpid" by simp
    from wait_while_alive_not_NOPROC [OF this] False True show ?thesis
      by (simp add: sys_WaitChild_def wait_for_specific_child_def get_pcb_def Let_def)
  qed
next
  case False
  then show ?thesis
    by (cases envs)
      (auto simp: sys_WaitChild_def is_rlist_empty_def Let_def NOPROC_def split: prod.splits)
qed


lemma cleanup_zombie_PT:
  "PT (snd (cleanup_zombie c st t)) =
     (map (\<lambda>q. q\<lparr>children_list := removeAll c (children_list q),
                  exited_list := removeAll c (exited_list q)\<rparr>) (PT t))
     [c := (PT t ! c)\<lparr>children_list := removeAll c (children_list (PT t ! c)),
                     exited_list := removeAll c (exited_list (PT t ! c)),
                     pstate := FREE, parent := pcb_freelist t\<rparr>]"
proof (cases "c < length (PT t)")
  case True
  then show ?thesis
    by (simp add: cleanup_zombie_def Let_def release_PCB_def upd_pcb_def
        rlist_remove_exited_node_def rlist_remove_children_node_def comp_def)
next
  case False
  then show ?thesis
    by (simp add: cleanup_zombie_def Let_def release_PCB_def upd_pcb_def
        rlist_remove_exited_node_def rlist_remove_children_node_def comp_def not_less
        list_update_beyond)
qed

lemma cleanup_zombie_unlinked:
  assumes "i < length (PT t)"
  shows "c \<notin> set (children_list (PT (snd (cleanup_zombie c st t)) ! i)) \<and>
         c \<notin> set (exited_list (PT (snd (cleanup_zombie c st t)) ! i))"
  using assms by (cases "i = c") (simp_all add: cleanup_zombie_PT)

lemma cleanup_zombie_exited:
  assumes "i < length (PT t)"
  shows "exited_list (PT (snd (cleanup_zombie c st t)) ! i) = removeAll c (exited_list (PT t ! i))"
    and "children_list (PT (snd (cleanup_zombie c st t)) ! i) = removeAll c (children_list (PT t ! i))"
  using assms by (cases "i = c"; simp add: cleanup_zombie_PT)+

lemma cleanup_zombie_slot:
  assumes "c < length (PT t)"
  shows "pstate (PT (snd (cleanup_zombie c st t)) ! c) = FREE"
    and "parent (PT (snd (cleanup_zombie c st t)) ! c) = pcb_freelist t"
  using assms by (simp_all add: cleanup_zombie_PT)

lemma cleanup_zombie_alloc:
  "pcb_freelist (snd (cleanup_zombie c st t)) = Some c"
  "process_count (snd (cleanup_zombie c st t)) = process_count t - 1"
  "fst (cleanup_zombie c st t) = (case st of None \<Rightarrow> None | Some _ \<Rightarrow> Some (exitval (PT t ! c)))"
  by (simp_all add: cleanup_zombie_def Let_def release_PCB_def upd_pcb_def
      rlist_remove_exited_node_def rlist_remove_children_node_def split: option.splits)

lemma wait_for_any_child_returned:
  assumes "ret (wait_for_any_child cur envs st s) = Returned pid" and "pid \<noteq> NOPROC"
  shows "children_list (PT (run_envs (take (waits (wait_for_any_child cur envs st s)) envs) s) ! cur) \<noteq> [] \<and>
         exited_list (PT (run_envs (take (waits (wait_for_any_child cur envs st s)) envs) s) ! cur) \<noteq> [] \<and>
         pstate (PT (run_envs (take (waits (wait_for_any_child cur envs st s)) envs) s) !
                 hd (exited_list (PT (run_envs (take (waits (wait_for_any_child cur envs st s)) envs) s) ! cur))) = ZOMBIE \<and>
         pid = int (hd (exited_list (PT (run_envs (take (waits (wait_for_any_child cur envs st s)) envs) s) ! cur))) \<and>
         (status_out (wait_for_any_child cur envs st s), kst (wait_for_any_child cur envs st s)) =
           cleanup_zombie (hd (exited_list (PT (run_envs (take (waits (wait_for_any_child cur envs st s)) envs) s) ! cur)))
             st (run_envs (take (waits (wait_for_any_child cur envs st s)) envs) s)"
  using assms
proof (induction envs arbitrary: s)
  case Nil
  then show ?case
    by (auto simp: is_rlist_empty_def Let_def split: if_splits prod.splits)
next
  case (Cons e es)
  show ?case
  proof (cases "children_list (PT s ! cur) \<noteq> [] \<and> exited_list (PT s ! cur) = []")
    case True
    then have eq: "wait_for_any_child cur (e # es) st s =
        (wait_for_any_child cur es st (e s))\<lparr>waits := Suc (waits (wait_for_any_child cur es st (e s)))\<rparr>"
      by (simp add: is_rlist_empty_def Let_def)
    with Cons.prems have "ret (wait_for_any_child cur es st (e s)) = Returned pid" by simp
    from Cons.IH [OF this Cons.prems(2)] True show ?thesis by (simp add: is_rlist_empty_def)
  next
    case False
    with Cons.prems show ?thesis
      by (auto simp: is_rlist_empty_def Let_def split: if_splits prod.splits)
  qed
qed


theorem sys_WaitChild_NOPROC_immediately_witness:
  "ret (sys_WaitChild 0 [] 2 None sample_state) = Returned NOPROC \<and>
   kst (sys_WaitChild 0 [] 2 None sample_state) = sample_state \<and>
   ret (sys_WaitChild 0 [] NOPROC None sample_state) = Returned NOPROC \<and>
   \<not> (ret (sys_WaitChild 1 [] NOPROC None sample_state) = Returned NOPROC \<and>
      waits (sys_WaitChild 1 [] NOPROC None sample_state) = 0)"
proof -
  have 1: "parent (PT sample_state ! nat 2) \<noteq> Some 0" "children_list (PT sample_state ! 0) = []"
    "children_list (PT sample_state ! 1) \<noteq> []"
    by (simp_all add: sample_state_def sample_PCB_def)
  have 2: "(2::int) \<noteq> NOPROC" by (simp add: NOPROC_def)
  from sys_WaitChild_NOPROC_immediately [of 0 "[]" 2 None sample_state]
    sys_WaitChild_NOPROC_immediately [of 0 "[]" NOPROC None sample_state]
    sys_WaitChild_NOPROC_immediately [of 1 "[]" NOPROC None sample_state] 1 2
  show ?thesis by simp
qed

lemma zombie_arrives_PT:
  assumes "parent (PT s ! c) = Some p"
  shows "PT (zombie_arrives c s) =
     (map (\<lambda>q. q\<lparr>children_list := removeAll c (children_list q)\<rparr>)
        ((PT s)[c := (PT s ! c)\<lparr>pstate := ZOMBIE\<rparr>]))
     [p := ((map (\<lambda>q. q\<lparr>children_list := removeAll c (children_list q)\<rparr>)
        ((PT s)[c := (PT s ! c)\<lparr>pstate := ZOMBIE\<rparr>])) ! p)
           \<lparr>exited_list := exited_list ((map (\<lambda>q. q\<lparr>children_list := removeAll c (children_list q)\<rparr>)
        ((PT s)[c := (PT s ! c)\<lparr>pstate := ZOMBIE\<rparr>])) ! p) @ [c]\<rparr>]"
  using assms
  by (simp add: zombie_arrives_def Let_def upd_pcb_def rlist_remove_children_node_def
      rlist_push_back_def)

lemma zombie_arrives_effect:
  assumes par: "parent (PT s ! c) = Some p" and c: "c < length (PT s)" and p: "p < length (PT s)"
    and ne: "c \<noteq> p"
  shows "length (PT (zombie_arrives c s)) = length (PT s)"
    and "exited_list (PT (zombie_arrives c s) ! p) = exited_list (PT s ! p) @ [c]"
    and "i < length (PT s) \<Longrightarrow>
         pstate (PT (zombie_arrives c s) ! i) = (if i = c then ZOMBIE else pstate (PT s ! i))"
    and "i < length (PT s) \<Longrightarrow> parent (PT (zombie_arrives c s) ! i) = parent (PT s ! i)"
    and "i < length (PT s) \<Longrightarrow> i \<noteq> p \<Longrightarrow> exited_list (PT (zombie_arrives c s) ! i) = exited_list (PT s ! i)"
    and "i < length (PT s) \<Longrightarrow> exitval (PT (zombie_arrives c s) ! i) = exitval (PT s ! i)"
proof -
  show "length (PT (zombie_arrives c s)) = length (PT s)"
    by (simp add: zombie_arrives_PT [OF par])
  show "exited_list (PT (zombie_arrives c s) ! p) = exited_list (PT s ! p) @ [c]"
    using c p ne by (simp add: zombie_arrives_PT [OF par])
  show "i < length (PT s) \<Longrightarrow>
         pstate (PT (zombie_arrives c s) ! i) = (if i = c then ZOMBIE else pstate (PT s ! i))"
    using c p ne by (cases "i = p"; cases "i = c") (simp_all add: zombie_arrives_PT [OF par])
  show "i < length (PT s) \<Longrightarrow> parent (PT (zombie_arrives c s) ! i) = parent (PT s ! i)"
    using c p ne by (cases "i = p"; cases "i = c") (simp_all add: zombie_arrives_PT [OF par])
  show "i < length (PT s) \<Longrightarrow> i \<noteq> p \<Longrightarrow> exited_list (PT (zombie_arrives c s) ! i) = exited_list (PT s ! i)"
    using c p ne by (cases "i = c") (simp_all add: zombie_arrives_PT [OF par])
  show "i < length (PT s) \<Longrightarrow> exitval (PT (zombie_arrives c s) ! i) = exitval (PT s ! i)"
    using c p ne by (cases "i = p"; cases "i = c") (simp_all add: zombie_arrives_PT [OF par])
qed

lemma fold_zombie_arrives:
  assumes "p < length (PT s)"
    and "\<forall>c \<in> set cs. c < length (PT s) \<and> parent (PT s ! c) = Some p \<and> c \<noteq> p"
  shows "length (PT (fold zombie_arrives cs s)) = length (PT s) \<and>
         exited_list (PT (fold zombie_arrives cs s) ! p) = exited_list (PT s ! p) @ cs \<and>
         (\<forall>i < length (PT s). pstate (PT (fold zombie_arrives cs s) ! i) =
             (if i \<in> set cs then ZOMBIE else pstate (PT s ! i)))"
  using assms
proof (induction cs arbitrary: s)
  case Nil
  show ?case by simp
next
  case (Cons c cs)
  from Cons.prems have c: "c < length (PT s)" "parent (PT s ! c) = Some p" "c \<noteq> p" by simp_all
  note E = zombie_arrives_effect [OF c(2) c(1) Cons.prems(1) c(3)]
  have 1: "p < length (PT (zombie_arrives c s))" using Cons.prems(1) by (simp add: E(1))
  have 2: "\<forall>d \<in> set cs. d < length (PT (zombie_arrives c s)) \<and>
              parent (PT (zombie_arrives c s) ! d) = Some p \<and> d \<noteq> p"
    using Cons.prems(2) by (simp add: E(1) E(4))
  from Cons.IH [OF 1 2] show ?case
    by (auto simp: E(1) E(2) E(3))
qed

lemma cleanup_zombie_pstate:
  assumes "i < length (PT t)" and "i \<noteq> c"
  shows "pstate (PT (snd (cleanup_zombie c st t)) ! i) = pstate (PT t ! i)"
  using assms by (simp add: cleanup_zombie_PT)

lemma reap_any_fifo:
  assumes "p < length (PT t)" and "distinct (exited_list (PT t ! p))"
    and "\<forall>c \<in> set (exited_list (PT t ! p)). c < length (PT t) \<and> pstate (PT t ! c) = ZOMBIE"
    and "n \<le> length (exited_list (PT t ! p))"
    and "Returned NOPROC \<notin> set (fst (reap_any p st n t))"
  shows "fst (reap_any p st n t) = map (\<lambda>c. Returned (int c)) (take n (exited_list (PT t ! p)))"
  using assms
proof (induction n arbitrary: t)
  case 0
  show ?case by simp
next
  case (Suc n)
  from Suc.prems(4) obtain c q where q: "exited_list (PT t ! p) = c # q"
    by (cases "exited_list (PT t ! p)") auto
  define r where "r = sys_WaitChild p [] NOPROC st t"
  have split: "fst (reap_any p st (Suc n) t) = ret r # fst (reap_any p st n (kst r))"
    by (simp add: r_def Let_def split: prod.splits)
  from Suc.prems(5) split have nn: "ret r \<noteq> Returned NOPROC"
    and rest: "Returned NOPROC \<notin> set (fst (reap_any p st n (kst r)))"
    by auto
  from nn have ch: "children_list (PT t ! p) \<noteq> []"
    by (auto simp: r_def sys_WaitChild_def is_rlist_empty_def)
  from Suc.prems(3) q have z: "pstate (PT t ! c) = ZOMBIE" and c: "c < length (PT t)" by simp_all
  have rr: "ret r = Returned (int c)" and k: "kst r = snd (cleanup_zombie c st t)"
    using ch q z by (simp_all add: r_def sys_WaitChild_def is_rlist_empty_def Let_def split: prod.splits)
  have len: "length (PT (kst r)) = length (PT t)" by (simp add: k cleanup_zombie_length)
  from Suc.prems(2) q have cq: "c \<notin> set q" "distinct q" by simp_all
  have ex: "exited_list (PT (kst r) ! p) = q"
    using cleanup_zombie_exited(1) [OF Suc.prems(1), of c st] q cq by (simp add: k)
  have 1: "p < length (PT (kst r))" using Suc.prems(1) len by simp
  have 2: "distinct (exited_list (PT (kst r) ! p))" using cq ex by simp
  have 3: "\<forall>d \<in> set (exited_list (PT (kst r) ! p)). d < length (PT (kst r)) \<and> pstate (PT (kst r) ! d) = ZOMBIE"
  proof
    fix d assume "d \<in> set (exited_list (PT (kst r) ! p))"
    with ex have d: "d \<in> set q" by simp
    with cq have "d \<noteq> c" by auto
    moreover from d Suc.prems(3) q have "d < length (PT t)" "pstate (PT t ! d) = ZOMBIE" by simp_all
    ultimately show "d < length (PT (kst r)) \<and> pstate (PT (kst r) ! d) = ZOMBIE"
      using len by (simp add: k cleanup_zombie_pstate cleanup_zombie_length)
  qed
  have 4: "n \<le> length (exited_list (PT (kst r) ! p))" using Suc.prems(4) q ex by simp
  from Suc.IH [OF 1 2 3 4 rest] show ?case
    unfolding split by (simp add: rr ex q)
qed


lemma zombie_arrives_children:
  assumes par: "parent (PT s ! c) = Some p" and c: "c < length (PT s)" and p: "p < length (PT s)"
    and ne: "c \<noteq> p" and i: "i < length (PT s)"
  shows "children_list (PT (zombie_arrives c s) ! i) = removeAll c (children_list (PT s ! i))"
  using c p ne i by (cases "i = p"; cases "i = c") (simp_all add: zombie_arrives_PT [OF par])

lemma fold_zombie_arrives_children:
  assumes "p < length (PT s)"
    and "\<forall>c \<in> set cs. c < length (PT s) \<and> parent (PT s ! c) = Some p \<and> c \<noteq> p"
    and "k \<in> set (children_list (PT s ! p))" and "k \<notin> set cs"
  shows "k \<in> set (children_list (PT (fold zombie_arrives cs s) ! p))"
  using assms
proof (induction cs arbitrary: s)
  case Nil
  then show ?case by simp
next
  case (Cons c cs)
  from Cons.prems have c: "c < length (PT s)" "parent (PT s ! c) = Some p" "c \<noteq> p" by simp_all
  note E = zombie_arrives_effect [OF c(2) c(1) Cons.prems(1) c(3)]
  have 1: "p < length (PT (zombie_arrives c s))" using Cons.prems(1) by (simp add: E(1))
  have 2: "\<forall>d \<in> set cs. d < length (PT (zombie_arrives c s)) \<and>
              parent (PT (zombie_arrives c s) ! d) = Some p \<and> d \<noteq> p"
    using Cons.prems(2) by (simp add: E(1) E(4))
  have 3: "k \<in> set (children_list (PT (zombie_arrives c s) ! p))"
    using Cons.prems(3,4)
    by (simp add: zombie_arrives_children [OF c(2) c(1) Cons.prems(1) c(3) Cons.prems(1)])
  have 4: "k \<notin> set cs" using Cons.prems(4) by simp
  from Cons.IH [OF 1 2 3 4] show ?case by simp
qed

lemma reap_any_succeeds:
  assumes "p < length (PT t)" and "distinct (exited_list (PT t ! p))"
    and "\<forall>c \<in> set (exited_list (PT t ! p)). c < length (PT t) \<and> pstate (PT t ! c) = ZOMBIE"
    and "n \<le> length (exited_list (PT t ! p))"
    and "k \<in> set (children_list (PT t ! p))" and "k \<notin> set (exited_list (PT t ! p))"
  shows "Returned NOPROC \<notin> set (fst (reap_any p st n t))"
  using assms
proof (induction n arbitrary: t)
  case 0
  show ?case by simp
next
  case (Suc n)
  from Suc.prems(4) obtain c q where q: "exited_list (PT t ! p) = c # q"
    by (cases "exited_list (PT t ! p)") auto
  define r where "r = sys_WaitChild p [] NOPROC st t"
  have split: "fst (reap_any p st (Suc n) t) = ret r # fst (reap_any p st n (kst r))"
    by (simp add: r_def Let_def split: prod.splits)
  from Suc.prems(5) have ch: "children_list (PT t ! p) \<noteq> []" by auto
  from Suc.prems(3) q have z: "pstate (PT t ! c) = ZOMBIE" and c: "c < length (PT t)" by simp_all
  have rr: "ret r = Returned (int c)" and k: "kst r = snd (cleanup_zombie c st t)"
    using ch q z by (simp_all add: r_def sys_WaitChild_def is_rlist_empty_def Let_def split: prod.splits)
  have len: "length (PT (kst r)) = length (PT t)" by (simp add: k cleanup_zombie_length)
  from Suc.prems(2) q have cq: "c \<notin> set q" "distinct q" by simp_all
  have ex: "exited_list (PT (kst r) ! p) = q"
    using cleanup_zombie_exited(1) [OF Suc.prems(1), of c st] q cq by (simp add: k)
  have 1: "p < length (PT (kst r))" using Suc.prems(1) len by simp
  have 2: "distinct (exited_list (PT (kst r) ! p))" using cq ex by simp
  have 3: "\<forall>d \<in> set (exited_list (PT (kst r) ! p)). d < length (PT (kst r)) \<and> pstate (PT (kst r) ! d) = ZOMBIE"
  proof
    fix d assume "d \<in> set (exited_list (PT (kst r) ! p))"
    with ex have d: "d \<in> set q" by simp
    with cq have "d \<noteq> c" by auto
    moreover from d Suc.prems(3) q have "d < length (PT t)" "pstate (PT t ! d) = ZOMBIE" by simp_all
    ultimately show "d < length (PT (kst r)) \<and> pstate (PT (kst r) ! d) = ZOMBIE"
      using len by (simp add: k cleanup_zombie_pstate cleanup_zombie_length)
  qed
  have 4: "n \<le> length (exited_list (PT (kst r) ! p))" using Suc.prems(4) q ex by simp
  from Suc.prems(6) q have kc: "k \<noteq> c" by auto
  have 5: "k \<in> set (children_list (PT (kst r) ! p))"
    using cleanup_zombie_exited(2) [OF Suc.prems(1), of c st] Suc.prems(5) kc by (simp add: k)
  have 6: "k \<notin> set (exited_list (PT (kst r) ! p))" using Suc.prems(6) q ex by simp
  from Suc.IH [OF 1 2 3 4 5 6] show ?case
    unfolding split by (simp add: rr NOPROC_def)
qed

lemma cleanup_zombie_others:
  "snd (cleanup_zombie c st t) =
     t\<lparr>PT := PT (snd (cleanup_zombie c st t)), pcb_freelist := Some c,
       process_count := process_count t - 1\<rparr>"
  by (simp add: cleanup_zombie_def Let_def release_PCB_def upd_pcb_def
      rlist_remove_exited_node_def rlist_remove_children_node_def)

lemma reap_after_arrivals:
  assumes p: "p < length (PT s0)"
    and d: "distinct (exited_list (PT s0 ! p) @ cs)"
    and z: "\<forall>d \<in> set (exited_list (PT s0 ! p)). d < length (PT s0) \<and> pstate (PT s0 ! d) = ZOMBIE"
    and a: "\<forall>d \<in> set cs. d < length (PT s0) \<and> parent (PT s0 ! d) = Some p \<and> d \<noteq> p"
    and n: "n \<le> length (exited_list (PT s0 ! p) @ cs)"
  shows "Returned NOPROC \<notin> set (fst (reap_any p st n (fold zombie_arrives cs s0))) \<Longrightarrow>
         fst (reap_any p st n (fold zombie_arrives cs s0)) =
           map (\<lambda>d. Returned (get_pid (Some d))) (take n (exited_list (PT s0 ! p) @ cs))"
    and "k \<in> set (children_list (PT s0 ! p)) \<Longrightarrow> k \<notin> set (exited_list (PT s0 ! p) @ cs) \<Longrightarrow>
         Returned NOPROC \<notin> set (fst (reap_any p st n (fold zombie_arrives cs s0)))"
proof -
  define t where "t = fold zombie_arrives cs s0"
  note F = fold_zombie_arrives [OF p a, folded t_def]
  from F have len: "length (PT t) = length (PT s0)"
    and ex: "exited_list (PT t ! p) = exited_list (PT s0 ! p) @ cs"
    and ps: "\<And>i. i < length (PT s0) \<Longrightarrow>
               pstate (PT t ! i) = (if i \<in> set cs then ZOMBIE else pstate (PT s0 ! i))"
    by simp_all
  have 1: "p < length (PT t)" using p len by simp
  have 2: "distinct (exited_list (PT t ! p))" using d ex by simp
  have 3: "\<forall>c \<in> set (exited_list (PT t ! p)). c < length (PT t) \<and> pstate (PT t ! c) = ZOMBIE"
    using z a by (auto simp: ex len ps)
  have 4: "n \<le> length (exited_list (PT t ! p))" using n ex by simp
  show "fst (reap_any p st n (fold zombie_arrives cs s0)) =
           map (\<lambda>d. Returned (get_pid (Some d))) (take n (exited_list (PT s0 ! p) @ cs))"
    if "Returned NOPROC \<notin> set (fst (reap_any p st n (fold zombie_arrives cs s0)))"
    using reap_any_fifo [OF 1 2 3 4, of st] that by (simp add: t_def [symmetric] ex)
  show "Returned NOPROC \<notin> set (fst (reap_any p st n (fold zombie_arrives cs s0)))"
    if k: "k \<in> set (children_list (PT s0 ! p))" "k \<notin> set (exited_list (PT s0 ! p) @ cs)"
  proof -
    from k have "k \<notin> set cs" by simp
    from fold_zombie_arrives_children [OF p a k(1) this]
    have 5: "k \<in> set (children_list (PT t ! p))" by (simp add: t_def)
    have 6: "k \<notin> set (exited_list (PT t ! p))" using k(2) ex by simp
    from reap_any_succeeds [OF 1 2 3 4 5 6] show ?thesis by (simp add: t_def)
  qed
qed

lemma sample_family_exits:
  "fold zombie_arrives [3, 2] sample_family =
     sample_state\<lparr>PT := [sample_PCB ALIVE None [] [], sample_PCB ALIVE None [4] [3, 2],
            sample_PCB ZOMBIE (Some 1) [] [], sample_PCB ZOMBIE (Some 1) [] [],
            sample_PCB ALIVE (Some 1) [] [], sample_PCB FREE None [] []],
       process_count := 5, pcb_freelist := Some 5\<rparr>"
  by (simp add: sample_family_def sample_state_def sample_PCB_def zombie_arrives_def Let_def
      upd_pcb_def rlist_remove_children_node_def rlist_push_back_def)

text \<open>
  Claim C4. When \<^verbatim>\<open>sys_WaitChild\<close> for any child returns a PID, then in the state \<open>t\<close>
  in which the caller last woke up the child \<open>c\<close> reclaimed is the first element of the
  caller's exited list (\<^verbatim>\<open>exited_list.next\<close>), a \<^verbatim>\<open>ZOMBIE\<close>; its exit value is stored in
  \<^verbatim>\<open>*status\<close> unless \<^verbatim>\<open>status\<close> is \<^verbatim>\<open>NULL\<close>; the state the call leaves is \<open>t\<close> with \<open>c\<close>
  removed from the children list and the exited list of every block and nothing else
  changed in the other blocks, the slot of \<open>c\<close> \<^verbatim>\<open>FREE\<close> and linked in as the new head of
  the free list, and one process less counted; and the call returns the PID of \<open>c\<close>.
  Such a return happens, without waiting, whenever the caller has children and the head
  of its exited list is a \<^verbatim>\<open>ZOMBIE\<close>.

  The first element is the oldest arrival: when the children \<open>cs\<close> of the caller exit
  in this order (as \<open>zombie_arrives\<close> has it) behind the zombies already waiting in the
  exited list, successive calls that return a PID return the zombies that were
  waiting, in their order, and then \<open>cs\<close> in the order of their exits; and the calls do
  return a PID as long as the caller keeps a child that has not exited.
\<close>

theorem sys_WaitChild_any_fifo:
  assumes r: "r = sys_WaitChild curproc envs NOPROC status s"
    and t: "t = run_envs (take (waits r) envs) s"
    and c: "c = hd (exited_list (PT t ! curproc))"
  shows "(ret r = Returned pid \<and> pid \<noteq> NOPROC \<longrightarrow>
            exited_list (PT t ! curproc) \<noteq> [] \<and> pstate (PT t ! c) = ZOMBIE \<and>
            pid = get_pid (Some c) \<and>
            status_out r = (case status of None \<Rightarrow> None | Some _ \<Rightarrow> Some (exitval (PT t ! c))) \<and>
            kst r =
              t\<lparr>PT :=
                  (map (\<lambda>q. q\<lparr>children_list := removeAll c (children_list q),
                               exited_list := removeAll c (exited_list q)\<rparr>) (PT t))
                  [c := (PT t ! c)\<lparr>children_list := removeAll c (children_list (PT t ! c)),
                                  exited_list := removeAll c (exited_list (PT t ! c)),
                                  pstate := FREE, parent := pcb_freelist t\<rparr>],
                pcb_freelist := Some c, process_count := process_count t - 1\<rparr> \<and>
            (\<forall>i < MAX_PROC t. c \<notin> set (children_list (PT (kst r) ! i)) \<and>
                               c \<notin> set (exited_list (PT (kst r) ! i))) \<and>
            (curproc < MAX_PROC t \<longrightarrow>
               exited_list (PT (kst r) ! curproc) = removeAll c (tl (exited_list (PT t ! curproc)))) \<and>
            (c < MAX_PROC t \<longrightarrow>
               pstate (PT (kst r) ! c) = FREE \<and> parent (PT (kst r) ! c) = pcb_freelist t)) \<and>
         (children_list (PT s ! curproc) \<noteq> [] \<and> exited_list (PT s ! curproc) \<noteq> [] \<and>
          pstate (PT s ! hd (exited_list (PT s ! curproc))) = ZOMBIE \<longrightarrow>
            ret r = Returned (get_pid (Some (hd (exited_list (PT s ! curproc))))) \<and> waits r = 0) \<and>
         (curproc < MAX_PROC s0 \<and> distinct (exited_list (PT s0 ! curproc) @ cs) \<and>
          (\<forall>d \<in> set (exited_list (PT s0 ! curproc)). d < MAX_PROC s0 \<and> pstate (PT s0 ! d) = ZOMBIE) \<and>
          (\<forall>d \<in> set cs. d < MAX_PROC s0 \<and> parent (PT s0 ! d) = Some curproc \<and> d \<noteq> curproc) \<and>
          n \<le> length (exited_list (PT s0 ! curproc) @ cs) \<longrightarrow>
            (Returned NOPROC \<notin> set (fst (reap_any curproc status n (fold zombie_arrives cs s0))) \<longrightarrow>
               fst (reap_any curproc status n (fold zombie_arrives cs s0)) =
                 map (\<lambda>d. Returned (get_pid (Some d)))
                   (take n (exited_list (PT s0 ! curproc) @ cs))) \<and>
            (k \<in> set (children_list (PT s0 ! curproc)) \<and>
             k \<notin> set (exited_list (PT s0 ! curproc) @ cs) \<longrightarrow>
               Returned NOPROC \<notin> set (fst (reap_any curproc status n (fold zombie_arrives cs s0)))))"
proof -
  have r': "r = wait_for_any_child curproc envs status s"
    by (simp add: r sys_WaitChild_def)
  have A: "exited_list (PT t ! curproc) \<noteq> [] \<and> pstate (PT t ! c) = ZOMBIE \<and>
            pid = get_pid (Some c) \<and>
            status_out r = (case status of None \<Rightarrow> None | Some _ \<Rightarrow> Some (exitval (PT t ! c))) \<and>
            kst r =
              t\<lparr>PT :=
                  (map (\<lambda>q. q\<lparr>children_list := removeAll c (children_list q),
                               exited_list := removeAll c (exited_list q)\<rparr>) (PT t))
                  [c := (PT t ! c)\<lparr>children_list := removeAll c (children_list (PT t ! c)),
                                  exited_list := removeAll c (exited_list (PT t ! c)),
                                  pstate := FREE, parent := pcb_freelist t\<rparr>],
                pcb_freelist := Some c, process_count := process_count t - 1\<rparr> \<and>
            (\<forall>i < MAX_PROC t. c \<notin> set (children_list (PT (kst r) ! i)) \<and>
                               c \<notin> set (exited_list (PT (kst r) ! i))) \<and>
            (curproc < MAX_PROC t \<longrightarrow>
               exited_list (PT (kst r) ! curproc) = removeAll c (tl (exited_list (PT t ! curproc)))) \<and>
            (c < MAX_PROC t \<longrightarrow>
               pstate (PT (kst r) ! c) = FREE \<and> parent (PT (kst r) ! c) = pcb_freelist t)"
    if ok: "ret r = Returned pid" "pid \<noteq> NOPROC"
  proof -
    from wait_for_any_child_returned [of curproc envs status s pid] ok
    have ne: "exited_list (PT t ! curproc) \<noteq> []" and z: "pstate (PT t ! c) = ZOMBIE"
      and pid: "pid = int c" and cz: "(status_out r, kst r) = cleanup_zombie c status t"
      by (simp_all add: r' [symmetric] t [symmetric] c [symmetric])
    from cz have so: "status_out r = fst (cleanup_zombie c status t)"
      and k: "kst r = snd (cleanup_zombie c status t)"
      by (metis fst_conv, metis snd_conv)
    from ne have hd_tl: "removeAll c (exited_list (PT t ! curproc)) = removeAll c (tl (exited_list (PT t ! curproc)))"
      by (cases "exited_list (PT t ! curproc)") (simp_all add: c)
    have fr: "kst r =
              t\<lparr>PT :=
                  (map (\<lambda>q. q\<lparr>children_list := removeAll c (children_list q),
                               exited_list := removeAll c (exited_list q)\<rparr>) (PT t))
                  [c := (PT t ! c)\<lparr>children_list := removeAll c (children_list (PT t ! c)),
                                  exited_list := removeAll c (exited_list (PT t ! c)),
                                  pstate := FREE, parent := pcb_freelist t\<rparr>],
                pcb_freelist := Some c, process_count := process_count t - 1\<rparr>"
      unfolding k using cleanup_zombie_others [of c status t]
      by (simp only: cleanup_zombie_PT)
    have rest: "(\<forall>i < MAX_PROC t. c \<notin> set (children_list (PT (kst r) ! i)) \<and>
                               c \<notin> set (exited_list (PT (kst r) ! i))) \<and>
            (curproc < MAX_PROC t \<longrightarrow>
               exited_list (PT (kst r) ! curproc) = removeAll c (tl (exited_list (PT t ! curproc)))) \<and>
            (c < MAX_PROC t \<longrightarrow>
               pstate (PT (kst r) ! c) = FREE \<and> parent (PT (kst r) ! c) = pcb_freelist t)"
      using hd_tl
      by (simp add: k cleanup_zombie_slot cleanup_zombie_unlinked cleanup_zombie_exited MAX_PROC_def)
    from ne z pid so fr rest show ?thesis
      by (simp only: cleanup_zombie_alloc get_pid.simps simp_thms)
  qed
  have B: "ret r = Returned (get_pid (Some (hd (exited_list (PT s ! curproc))))) \<and> waits r = 0"
    if "children_list (PT s ! curproc) \<noteq> [] \<and> exited_list (PT s ! curproc) \<noteq> [] \<and>
          pstate (PT s ! hd (exited_list (PT s ! curproc))) = ZOMBIE"
    using that by (cases envs) (simp_all add: r' is_rlist_empty_def Let_def split: prod.splits)
  have C: "(Returned NOPROC \<notin> set (fst (reap_any curproc status n (fold zombie_arrives cs s0))) \<longrightarrow>
               fst (reap_any curproc status n (fold zombie_arrives cs s0)) =
                 map (\<lambda>d. Returned (get_pid (Some d)))
                   (take n (exited_list (PT s0 ! curproc) @ cs))) \<and>
            (k \<in> set (children_list (PT s0 ! curproc)) \<and>
             k \<notin> set (exited_list (PT s0 ! curproc) @ cs) \<longrightarrow>
               Returned NOPROC \<notin> set (fst (reap_any curproc status n (fold zombie_arrives cs s0))))"
    if h: "curproc < MAX_PROC s0 \<and> distinct (exited_list (PT s0 ! curproc) @ cs) \<and>
          (\<forall>d \<in> set (exited_list (PT s0 ! curproc)). d < MAX_PROC s0 \<and> pstate (PT s0 ! d) = ZOMBIE) \<and>
          (\<forall>d \<in> set cs. d < MAX_PROC s0 \<and> parent (PT s0 ! d) = Some curproc \<and> d \<noteq> curproc) \<and>
          n \<le> length (exited_list (PT s0 ! curproc) @ cs)"
  proof -
    from h have 1: "curproc < length (PT s0)"
      and 2: "distinct (exited_list (PT s0 ! curproc) @ cs)"
      and 3: "\<forall>d \<in> set (exited_list (PT s0 ! curproc)). d < length (PT s0) \<and> pstate (PT s0 ! d) = ZOMBIE"
      and 4: "\<forall>d \<in> set cs. d < length (PT s0) \<and> parent (PT s0 ! d) = Some curproc \<and> d \<noteq> curproc"
      and 5: "n \<le> length (exited_list (PT s0 ! curproc) @ cs)"
      by (simp_all add: MAX_PROC_def)
    from reap_after_arrivals [OF 1 2 3 4 5] show ?thesis by blast
  qed
  from A B C show ?thesis by blast
qed

theorem sys_WaitChild_any_fifo_witness:
  "ret (sys_WaitChild 1 [] NOPROC (Some 0) (fold zombie_arrives [3, 2] sample_family)) = Returned 3 \<and>
   status_out (sys_WaitChild 1 [] NOPROC (Some 0) (fold zombie_arrives [3, 2] sample_family)) = Some 7 \<and>
   children_list (PT (kst (sys_WaitChild 1 [] NOPROC (Some 0)
       (fold zombie_arrives [3, 2] sample_family))) ! 1) = [4] \<and>
   exited_list (PT (kst (sys_WaitChild 1 [] NOPROC (Some 0)
       (fold zombie_arrives [3, 2] sample_family))) ! 1) = [2] \<and>
   pstate (PT (kst (sys_WaitChild 1 [] NOPROC (Some 0)
       (fold zombie_arrives [3, 2] sample_family))) ! 3) = FREE \<and>
   pcb_freelist (kst (sys_WaitChild 1 [] NOPROC (Some 0)
       (fold zombie_arrives [3, 2] sample_family))) = Some 3 \<and>
   fst (reap_any 1 (Some 0) 2 (fold zombie_arrives [3, 2] sample_family)) = [Returned 3, Returned 2]"
proof -
  define u where "u = fold zombie_arrives [3, 2] sample_family"
  define r where "r = sys_WaitChild 1 [] NOPROC (Some 0) u"
  have ue: "u = sample_state\<lparr>PT := [sample_PCB ALIVE None [] [], sample_PCB ALIVE None [4] [3, 2],
            sample_PCB ZOMBIE (Some 1) [] [], sample_PCB ZOMBIE (Some 1) [] [],
            sample_PCB ALIVE (Some 1) [] [], sample_PCB FREE None [] []],
       process_count := 5, pcb_freelist := Some 5\<rparr>"
    unfolding u_def by (rule sample_family_exits)
  have u: "children_list (PT u ! Suc 0) = [4]" "exited_list (PT u ! Suc 0) = [3, 2]"
    "pstate (PT u ! 3) = ZOMBIE" "exitval (PT u ! 3) = 7" "MAX_PROC u = 6"
    "pcb_freelist u = Some 5"
    by (simp_all add: ue sample_state_def sample_PCB_def MAX_PROC_def)
  have f: "Suc 0 < MAX_PROC sample_family" "exited_list (PT sample_family ! Suc 0) = []"
    "children_list (PT sample_family ! Suc 0) = [4, 3, 2]"
    "parent (PT sample_family ! 3) = Some (Suc 0)" "parent (PT sample_family ! 2) = Some (Suc 0)"
    "MAX_PROC sample_family = 6"
    by (simp_all add: sample_family_def sample_state_def sample_PCB_def MAX_PROC_def)
  have 2: "(3::int) \<noteq> NOPROC" by (simp add: NOPROC_def)
  note T = sys_WaitChild_any_fifo [OF r_def refl refl, of 3 sample_family "[3, 2]" 2 4]
  from T [THEN conjunct2, THEN conjunct1] u have S: "ret r = Returned 3" "waits r = 0"
    by simp_all
  then have t: "run_envs (take (waits r) []) u = u" by simp
  from T [THEN conjunct1] S 2 have A: "status_out r = Some 7 \<and>
    children_list (PT (kst r) ! Suc 0) = [4] \<and> exited_list (PT (kst r) ! Suc 0) = [2] \<and>
    pstate (PT (kst r) ! 3) = FREE \<and> pcb_freelist (kst r) = Some 3"
    unfolding t by (clarsimp simp: u) (simp add: ue sample_state_def sample_PCB_def)
  from T [THEN conjunct2, THEN conjunct2] f
  have "fst (reap_any 1 (Some 0) 2 u) = [Returned 3, Returned 2]"
    unfolding u_def [symmetric] by simp
  with S A show ?thesis unfolding r_def u_def by simp
qed

text \<open>
  A caller whose only child is alive is suspended, by either kind of call, and returns
  the child's PID once the child has become a zombie.
\<close>

lemma sys_WaitChild_blocks_until_exit:
  "ret (sys_WaitChild 1 [] NOPROC None sample_alive) = Blocked"
  "ret (sys_WaitChild 1 [] 2 None sample_alive) = Blocked"
  "ret (sys_WaitChild 1 [\<lambda>_. sample_state] NOPROC None sample_alive) = Returned 2"
  "waits (sys_WaitChild 1 [\<lambda>_. sample_state] NOPROC None sample_alive) = 1"
  "ret (sys_WaitChild 1 [\<lambda>_. sample_state] 2 None sample_alive) = Returned 2"
  "kst (sys_WaitChild 1 [\<lambda>_. sample_state] 2 None sample_alive) =
     kst (sys_WaitChild 1 [] 2 None sample_state)"
proof -
  have a: "children_list (PT sample_alive ! Suc 0) = [2]" "exited_list (PT sample_alive ! Suc 0) = []"
    "pstate (PT sample_alive ! 2) = ALIVE" "parent (PT sample_alive ! 2) = Some (Suc 0)"
    "MAX_PROC sample_alive = 4"
    by (simp_all add: sample_alive_def sample_state_def sample_PCB_def MAX_PROC_def)
  have z: "children_list (PT sample_state ! Suc 0) = [2]" "exited_list (PT sample_state ! Suc 0) = [2]"
    "pstate (PT sample_state ! 2) = ZOMBIE" "parent (PT sample_state ! 2) = Some (Suc 0)"
    "MAX_PROC sample_state = 4"
    by (simp_all add: sample_state_def sample_PCB_def MAX_PROC_def)
  show "ret (sys_WaitChild 1 [] NOPROC None sample_alive) = Blocked"
    by (simp add: sys_WaitChild_def is_rlist_empty_def a)
  show "ret (sys_WaitChild 1 [] 2 None sample_alive) = Blocked"
    by (simp add: sys_WaitChild_def wait_for_specific_child_def get_pcb_def NOPROC_def a)
  show "ret (sys_WaitChild 1 [\<lambda>_. sample_state] NOPROC None sample_alive) = Returned 2"
    by (simp add: sys_WaitChild_def is_rlist_empty_def a z case_prod_beta)
  show "waits (sys_WaitChild 1 [\<lambda>_. sample_state] NOPROC None sample_alive) = 1"
    by (simp add: sys_WaitChild_def is_rlist_empty_def a z case_prod_beta)
  show "ret (sys_WaitChild 1 [\<lambda>_. sample_state] 2 None sample_alive) = Returned 2"
    by (simp add: sys_WaitChild_def wait_for_specific_child_def get_pcb_def NOPROC_def a z
        case_prod_beta)
  show "kst (sys_WaitChild 1 [\<lambda>_. sample_state] 2 None sample_alive) =
     kst (sys_WaitChild 1 [] 2 None sample_state)"
    by (simp add: sys_WaitChild_def wait_for_specific_child_def get_pcb_def NOPROC_def a z
        case_prod_beta)
qed

lemma map_upd_pcb:
  assumes "g (f (PT s ! p)) = g (PT s ! p)"
  shows "map g (PT (upd_pcb p f s)) = map g (PT s)"
proof (cases "p < length (PT s)")
  case True
  then show ?thesis
    using assms by (simp add: upd_pcb_def map_update list_update_same_conv)
next
  case False
  then show ?thesis by (simp add: upd_pcb_def list_update_beyond)
qed

lemma map_eq_nth: "map g xs = map g ys \<Longrightarrow> i < length xs \<Longrightarrow> g (xs ! i) = g (ys ! i)"
  by (metis length_map nth_map)

lemma map_inherit_FIDT:
  assumes "\<And>x F. g (x\<lparr>FIDT := F\<rparr>) = g x"
  shows "map g (PT (inherit_FIDT newproc curproc is s)) = map g (PT s)"
proof (induction "is" arbitrary: s)
  case Nil
  show ?case by simp
next
  case (Cons i "is")
  let ?s1 = "upd_pcb newproc (\<lambda>p. p\<lparr>FIDT := (FIDT p)[i := FIDT (PT s ! curproc) ! i]\<rparr>) s"
  have 1: "map g (PT ?s1) = map g (PT s)" by (rule map_upd_pcb) (simp add: assms)
  have 2: "PT (FCB_incref f ?s1) = PT ?s1" for f by (simp add: FCB_incref_def)
  show ?case
    using Cons.IH [of ?s1] Cons.IH [of "FCB_incref f ?s1" for f] 1 2
    by (simp add: Let_def split: option.splits)
qed

lemma map_exec_copy_args:
  assumes "\<And>x v. g (x\<lparr>main_task := v\<rparr>) = g x" "\<And>x v. g (x\<lparr>argl := v\<rparr>) = g x"
    "\<And>x v. g (x\<lparr>args := v\<rparr>) = g x"
    and "exec_copy_args newproc call al ar s = Done s'"
  shows "map g (PT s') = map g (PT s)"
proof -
  let ?f = "\<lambda>p. p\<lparr>main_task := call, argl := al,
                     args := (if ar = None then None else Some (length (mem s)))\<rparr>"
  have "PT s' = PT (upd_pcb newproc ?f s)"
    using exec_copy_args_Done(1) [OF assms(4)] by (simp add: upd_pcb_def)
  moreover have "map g (PT (upd_pcb newproc ?f s)) = map g (PT s)"
    by (rule map_upd_pcb) (simp add: assms(1-3))
  ultimately show ?thesis by simp
qed

lemma map_exec_main_thread:
  assumes "\<And>x v. g (x\<lparr>ptcb_list := v\<rparr>) = g x" "\<And>x v. g (x\<lparr>thread_count := v\<rparr>) = g x"
    "\<And>x v. g (x\<lparr>main_thread := v\<rparr>) = g x"
  shows "map g (PT (exec_main_thread newproc call al ar s)) = map g (PT s)"
proof (cases call)
  case None
  then show ?thesis by (simp add: exec_main_thread_def)
next
  case (Some c)
  define t where "t = length (tcbs s)"
  define pt where "pt = length (ptcbs s)"
  define s1 where "s1 = snd (spawn_thread newproc start_main_thread s)"
  define s2 where "s2 = snd (init_ptcb call al ar s1)"
  define s3 where "s3 = s2\<lparr>tcbs := (tcbs s2)[t := (tcbs s2 ! t)\<lparr>ptcb := Some pt\<rparr>]\<rparr>"
  define s4 where "s4 = s3\<lparr>ptcbs := (ptcbs s3)[pt := (ptcbs s3 ! pt)\<lparr>tcb := Some t\<rparr>]\<rparr>"
  define s5 where "s5 = upd_pcb newproc (\<lambda>p. p\<lparr>ptcb_list := rlist_push_back (ptcb_list p) pt\<rparr>) s4"
  define s6 where "s6 = upd_pcb newproc (\<lambda>p. p\<lparr>thread_count := 1\<rparr>) s5"
  define s7 where "s7 = upd_pcb newproc (\<lambda>p. p\<lparr>main_thread := Some t\<rparr>) s6"
  have eq: "exec_main_thread newproc call al ar s = wakeup t s7"
    using Some
    by (simp add: exec_main_thread_def Let_def spawn_thread_def init_ptcb_def
        s7_def s6_def s5_def s4_def s3_def s2_def s1_def t_def pt_def)
  have 4: "PT s4 = PT s"
    by (simp add: s4_def s3_def s2_def s1_def spawn_thread_def init_ptcb_def)
  have 5: "map g (PT s5) = map g (PT s4)" unfolding s5_def by (simp add: map_upd_pcb assms)
  have 6: "map g (PT s6) = map g (PT s5)" unfolding s6_def by (simp add: map_upd_pcb assms)
  have 7: "map g (PT s7) = map g (PT s6)" unfolding s7_def by (simp add: map_upd_pcb assms)
  show ?thesis
    unfolding eq using 4 5 6 7 by (simp add: wakeup_def)
qed

lemma map_eq_length: "map g xs = map g ys \<Longrightarrow> length xs = length ys"
  by (rule map_eq_imp_length_eq)

lemma exec_inherit_parent:
  assumes "newproc < length (PT s)"
  shows "parent (PT (exec_inherit curproc newproc s) ! newproc) =
           (if newproc \<le> 1 then None else Some curproc)"
proof (cases "newproc \<le> 1")
  case True
  with assms show ?thesis by (simp add: exec_inherit_def upd_pcb_def)
next
  case False
  define s1 where "s1 = upd_pcb newproc (\<lambda>p. p\<lparr>parent := Some curproc\<rparr>) s"
  define s2 where "s2 = upd_pcb curproc
               (\<lambda>p. p\<lparr>children_list := rlist_push_front (children_list p) newproc\<rparr>) s1"
  define s3 where "s3 = inherit_FIDT newproc curproc [0 ..< MAX_FILEID (PT s2 ! curproc)] s2"
  have eq: "exec_inherit curproc newproc s = s3"
    using False by (simp add: exec_inherit_def Let_def s3_def s2_def s1_def)
  have 1: "parent (PT s1 ! newproc) = Some curproc" and len1: "newproc < length (PT s1)"
    using assms by (simp_all add: upd_pcb_def s1_def)
  have 2: "map parent (PT s2) = map parent (PT s1)"
    unfolding s2_def by (simp add: map_upd_pcb)
  have 3: "map parent (PT s3) = map parent (PT s2)"
    unfolding s3_def by (rule map_inherit_FIDT) simp
  from 2 len1 have len2: "newproc < length (PT s2)" by (simp add: map_eq_length [OF 2])
  from 3 len2 have len3: "newproc < length (PT s3)" by (simp add: map_eq_length [OF 3])
  have "parent (PT s3 ! newproc) = parent (PT s2 ! newproc)"
    using 3 len3 by (rule map_eq_nth)
  also have "\<dots> = parent (PT s1 ! newproc)"
    using 2 len2 by (rule map_eq_nth)
  finally show ?thesis using 1 False by (simp add: eq)
qed

lemma acquire_PCB_PT:
  assumes "pcb_freelist s = Some n"
  shows "PT (snd (acquire_PCB s)) = (PT s)[n := (PT s ! n)\<lparr>pstate := ALIVE\<rparr>]"
    and "refcount (snd (acquire_PCB s)) = refcount s"
    and "mem (snd (acquire_PCB s)) = mem s"
    and "tcbs (snd (acquire_PCB s)) = tcbs s"
    and "ptcbs (snd (acquire_PCB s)) = ptcbs s"
    and "ready (snd (acquire_PCB s)) = ready s"
  using assms by (simp_all add: acquire_PCB_def upd_pcb_def)

lemma length_upd_pcb: "length (PT (upd_pcb p f s)) = length (PT s)"
  by (simp add: upd_pcb_def)

lemma length_inherit_FIDT: "length (PT (inherit_FIDT newproc curproc is s)) = length (PT s)"
  by (rule map_eq_length [of "\<lambda>_. ()"]) (simp add: map_inherit_FIDT)

lemma length_exec_inherit: "length (PT (exec_inherit curproc newproc s)) = length (PT s)"
  by (simp add: exec_inherit_def Let_def length_inherit_FIDT length_upd_pcb)

lemma length_exec_copy_args:
  "exec_copy_args newproc call al ar s = Done s' \<Longrightarrow> length (PT s') = length (PT s)"
  by (simp add: exec_copy_args_Done(1))

lemma length_exec_main_thread: "length (PT (exec_main_thread newproc call al ar s)) = length (PT s)"
  by (rule map_eq_length [of "\<lambda>_. ()"]) (simp add: map_exec_main_thread)

lemma sys_Exec_parent:
  assumes h: "pcb_freelist s = Some n" and n: "n < length (PT s)"
    and ex: "sys_Exec curproc call al ar s = Done (pid, s')"
  shows "parent (PT s' ! n) = (if n \<le> 1 then None else Some curproc)"
proof -
  define s0 where "s0 = snd (acquire_PCB s)"
  define s1 where "s1 = exec_inherit curproc n s0"
  from sys_Exec_Done [OF h ex] obtain s2 where
    s2: "exec_copy_args n call al ar s1 = Done s2"
    and s': "s' = exec_main_thread n call al ar s2"
    unfolding s1_def s0_def by auto
  have len0: "n < length (PT s0)"
    using h n by (simp add: s0_def acquire_PCB_PT)
  have 1: "parent (PT s1 ! n) = (if n \<le> 1 then None else Some curproc)"
    unfolding s1_def using len0 by (rule exec_inherit_parent)
  have len2: "n < length (PT s2)"
    using len0 by (simp add: length_exec_copy_args [OF s2] s1_def length_exec_inherit)
  have len3: "n < length (PT s')"
    using len2 by (simp add: s' length_exec_main_thread)
  have 2: "map parent (PT s2) = map parent (PT s1)"
    by (rule map_exec_copy_args [OF _ _ _ s2]) simp_all
  have 3: "map parent (PT s') = map parent (PT s2)"
    unfolding s' by (rule map_exec_main_thread) simp_all
  have "parent (PT s' ! n) = parent (PT s2 ! n)" using 3 len3 by (rule map_eq_nth)
  also have "\<dots> = parent (PT s1 ! n)" using 2 len2 by (rule map_eq_nth)
  finally show ?thesis using 1 by simp
qed

text \<open>
  Claim C8, as stated: for a caller without a parent the result would be the idle
  sentinel. The spec gives the result the type PID and names PID 0 the idle process,
  the PID that \<^verbatim>\<open>initialize_processes\<close> insists on. The init process, PID 1, has no
  parent, and \<^verbatim>\<open>sys_GetPPid\<close> returns -1 for it: not the PID of the idle process, and
  no PID at all.
\<close>

theorem sys_GetPPid_not_idle:
  "parent (PT sample_state ! 1) = None \<and> sys_GetPPid 1 sample_state = - 1 \<and>
   sys_GetPPid 1 sample_state \<noteq> idle_pid \<and>
   \<not> (0 \<le> sys_GetPPid 1 sample_state \<and> sys_GetPPid 1 sample_state < int (MAX_PROC sample_state))"
  by (simp add: sys_GetPPid_def sample_state_def sample_PCB_def NOPROC_def idle_pid_def)

text \<open>
  Claim C8, amended. \<^verbatim>\<open>sys_GetPPid\<close> returns the PID of the caller's parent, and when
  the caller has no parent it returns \<^verbatim>\<open>NOPROC\<close>, the "no such process" sentinel, which
  is negative and so neither the PID of the idle process nor any other PID. A process
  created by \<^verbatim>\<open>sys_Exec\<close> has the caller as its parent, except the processes with PID 0
  or 1, which have none.
\<close>

theorem sys_GetPPid_parent_or_NOPROC:
  "(parent (PT s ! curproc) = Some p \<longrightarrow> sys_GetPPid curproc s = int p) \<and>
   (parent (PT s ! curproc) = None \<longrightarrow> sys_GetPPid curproc s = NOPROC) \<and>
   NOPROC < 0 \<and> NOPROC \<noteq> idle_pid \<and>
   (pcb_freelist s = Some n \<and> n < MAX_PROC s \<and>
    sys_Exec caller call al ar s = Done (pid, s') \<longrightarrow>
      pid = int n \<and> sys_GetPPid n s' = (if n \<le> 1 then NOPROC else int caller))"
proof -
  have "pid = int n \<and> sys_GetPPid n s' = (if n \<le> 1 then NOPROC else int caller)"
    if h: "pcb_freelist s = Some n" and n: "n < MAX_PROC s"
      and ex: "sys_Exec caller call al ar s = Done (pid, s')"
  proof -
    from sys_Exec_Done [OF h ex] have "pid = int n" by auto
    moreover from n have "n < length (PT s)" by (simp add: MAX_PROC_def)
    from sys_Exec_parent [OF h this ex]
    have "sys_GetPPid n s' = (if n \<le> 1 then NOPROC else int caller)"
      by (simp add: sys_GetPPid_def)
    ultimately show ?thesis by simp
  qed
  then show ?thesis
    by (auto simp: sys_GetPPid_def NOPROC_def idle_pid_def)
qed

theorem sys_GetPPid_parent_or_NOPROC_witness:
  "sys_GetPPid 2 sample_state = 1 \<and> sys_GetPPid 1 sample_state = NOPROC \<and>
   (\<exists>s'. sys_Exec 1 (Some 7) 0 None sample_state = Done (3, s') \<and> sys_GetPPid 3 s' = 1)"
proof -
  have 1: "parent (PT sample_state ! 2) = Some 1" "parent (PT sample_state ! 1) = None"
    and 2: "pcb_freelist sample_state = Some 3 \<and> 3 < MAX_PROC sample_state"
    by (simp_all add: sample_state_def sample_PCB_def MAX_PROC_def)
  obtain pid s' where 3: "sys_Exec 1 (Some 7) 0 None sample_state = Done (pid, s')"
    using sys_Exec_null_Done by blast
  from sys_GetPPid_parent_or_NOPROC [of sample_state 2 1 3 1 "Some 7" 0 None pid s']
    sys_GetPPid_parent_or_NOPROC [of sample_state 1 1 3 1 "Some 7" 0 None pid s'] 1 2 3
  show ?thesis by simp
qed

subsection \<open>Inherited handles\<close>

lemma inherit_FIDT_effect:
  assumes "newproc \<noteq> curproc" and "newproc < length (PT s)" and "curproc < length (PT s)"
    and "\<forall>i \<in> set is. i < length (FIDT (PT s ! newproc))"
  shows "FIDT (PT (inherit_FIDT newproc curproc is s) ! newproc) =
           fold (\<lambda>i F. F[i := FIDT (PT s ! curproc) ! i]) is (FIDT (PT s ! newproc)) \<and>
         refcount (inherit_FIDT newproc curproc is s) f =
           refcount s f + length (filter (\<lambda>i. FIDT (PT s ! curproc) ! i = Some f) is)"
  using assms
proof (induction "is" arbitrary: s)
  case Nil
  show ?case by simp
next
  case (Cons i "is")
  define C where "C = FIDT (PT s ! curproc)"
  define s1 where "s1 = upd_pcb newproc (\<lambda>p. p\<lparr>FIDT := (FIDT p)[i := C ! i]\<rparr>) s"
  define s2 where "s2 = (case C ! i of None \<Rightarrow> s1 | Some h \<Rightarrow> FCB_incref h s1)"
  have i: "i < length (FIDT (PT s ! newproc))" using Cons.prems(4) by simp
  have new1: "FIDT (PT s1 ! newproc) = (FIDT (PT s ! newproc))[i := C ! i]"
    using Cons.prems(2) by (simp add: s1_def upd_pcb_def)
  then have rd: "FIDT (PT s1 ! newproc) ! i = C ! i" using i by simp
  have cur1: "PT s1 ! curproc = PT s ! curproc"
    using Cons.prems(1) by (simp add: s1_def upd_pcb_def)
  have PT2: "PT s2 = PT s1" by (simp add: s2_def FCB_incref_def split: option.splits)
  have eq: "inherit_FIDT newproc curproc (i # is) s = inherit_FIDT newproc curproc is s2"
    using rd unfolding s2_def s1_def C_def by (simp add: Let_def)
  have rc2: "refcount s2 f = refcount s f + (if C ! i = Some f then 1 else 0)"
    by (simp add: s2_def s1_def upd_pcb_def FCB_incref_def split: option.splits)
  have len2: "newproc < length (PT s2)" "curproc < length (PT s2)"
    using Cons.prems(2,3) by (simp_all add: PT2 s1_def upd_pcb_def)
  have sz2: "\<forall>j \<in> set is. j < length (FIDT (PT s2 ! newproc))"
    using Cons.prems(4) by (simp add: PT2 new1)
  have cur2: "FIDT (PT s2 ! curproc) = C" by (simp add: PT2 cur1 C_def)
  from Cons.IH [OF Cons.prems(1) len2 sz2]
  show ?case
    unfolding eq by (simp add: cur2 PT2 cur1 new1 rc2 C_def)
qed

lemma fold_copy_prefix:
  assumes "n \<le> length C" and "n \<le> length F"
  shows "fold (\<lambda>i F. F[i := C ! i]) [0 ..< n] F = take n C @ drop n F"
  using assms
proof (induction n)
  case 0
  show ?case by simp
next
  case (Suc n)
  then have n: "n < length C" "n < length F" by simp_all
  have "(take n C @ drop n F)[n := C ! n] = take n C @ (drop n F)[0 := C ! n]"
    using n by (simp add: list_update_append)
  also have "\<dots> = take n C @ (C ! n # drop (Suc n) F)"
    using n by (simp add: Cons_nth_drop_Suc [symmetric])
  also have "\<dots> = take (Suc n) C @ drop (Suc n) F"
    using n by (simp add: take_Suc_conv_app_nth)
  finally show ?case using Suc by simp
qed

lemma count_indices:
  "length (filter (\<lambda>i. C ! i = x) [0 ..< length C]) = count_list C x"
proof -
  have "length (filter (\<lambda>i. C ! i = x) [0 ..< length C])
        = length (filter (\<lambda>y. y = x) (map (nth C) [0 ..< length C]))"
    by (simp add: filter_map comp_def)
  also have "\<dots> = length (filter (\<lambda>y. y = x) C)" by (simp add: map_nth)
  also have "\<dots> = count_list C x"
    by (induction C) simp_all
  finally show ?thesis .
qed

lemma inherit_FIDT_all:
  assumes "newproc \<noteq> curproc" and "newproc < length (PT s)" and "curproc < length (PT s)"
    and "length (FIDT (PT s ! newproc)) = length (FIDT (PT s ! curproc))"
  shows "FIDT (PT (inherit_FIDT newproc curproc [0 ..< MAX_FILEID (PT s ! curproc)] s) ! newproc)
           = FIDT (PT s ! curproc)"
    and "refcount (inherit_FIDT newproc curproc [0 ..< MAX_FILEID (PT s ! curproc)] s) f
           = refcount s f + count_list (FIDT (PT s ! curproc)) (Some f)"
proof -
  have sz: "\<forall>i \<in> set [0 ..< MAX_FILEID (PT s ! curproc)]. i < length (FIDT (PT s ! newproc))"
    using assms(4) by (simp add: MAX_FILEID_def)
  note E = inherit_FIDT_effect [OF assms(1-3) sz, of f]
  show "FIDT (PT (inherit_FIDT newproc curproc [0 ..< MAX_FILEID (PT s ! curproc)] s) ! newproc)
           = FIDT (PT s ! curproc)"
    using E assms(4) by (simp add: MAX_FILEID_def fold_copy_prefix)
  show "refcount (inherit_FIDT newproc curproc [0 ..< MAX_FILEID (PT s ! curproc)] s) f
           = refcount s f + count_list (FIDT (PT s ! curproc)) (Some f)"
    using E by (simp add: MAX_FILEID_def count_indices)
qed

lemma refcount_exec_main_thread: "refcount (exec_main_thread newproc call al ar s) = refcount s"
  by (simp add: exec_main_thread_def Let_def split_beta upd_pcb_def spawn_thread_def
      init_ptcb_def wakeup_def)


lemma exec_inherit_handles:
  assumes "1 < n" and "n < length (PT s)" and "curproc < length (PT s)" and "curproc \<noteq> n"
    and "length (FIDT (PT s ! n)) = length (FIDT (PT s ! curproc))"
  shows "FIDT (PT (exec_inherit curproc n s) ! n) = FIDT (PT s ! curproc)"
    and "refcount (exec_inherit curproc n s) f =
           refcount s f + count_list (FIDT (PT s ! curproc)) (Some f)"
proof -
  define s1 where "s1 = upd_pcb n (\<lambda>p. p\<lparr>parent := Some curproc\<rparr>) s"
  define s2 where "s2 = upd_pcb curproc
               (\<lambda>p. p\<lparr>children_list := rlist_push_front (children_list p) n\<rparr>) s1"
  have eq: "exec_inherit curproc n s = inherit_FIDT n curproc [0 ..< MAX_FILEID (PT s2 ! curproc)] s2"
    using assms(1) by (simp add: exec_inherit_def Let_def s2_def s1_def)
  have len: "n < length (PT s2)" "curproc < length (PT s2)"
    using assms(2,3) by (simp_all add: s2_def s1_def upd_pcb_def)
  have F: "FIDT (PT s2 ! n) = FIDT (PT s ! n)" "FIDT (PT s2 ! curproc) = FIDT (PT s ! curproc)"
    and R: "refcount s2 = refcount s"
    using assms(2,3,4) by (simp_all add: s2_def s1_def upd_pcb_def)
  have sz: "length (FIDT (PT s2 ! n)) = length (FIDT (PT s2 ! curproc))"
    using assms(5) by (simp add: F)
  note I = inherit_FIDT_all [OF assms(4) [symmetric] len sz]
  show "FIDT (PT (exec_inherit curproc n s) ! n) = FIDT (PT s ! curproc)"
    unfolding eq using I(1) by (simp add: F)
  show "refcount (exec_inherit curproc n s) f =
           refcount s f + count_list (FIDT (PT s ! curproc)) (Some f)"
    unfolding eq using I(2) [of f] by (simp add: F R)
qed

lemma exec_inherit_orphan:
  assumes "n \<le> 1"
  shows "map FIDT (PT (exec_inherit curproc n s)) = map FIDT (PT s)"
    and "refcount (exec_inherit curproc n s) = refcount s"
  using assms by (simp_all add: exec_inherit_def map_upd_pcb) (simp add: upd_pcb_def)

lemma sys_Exec_handles:
  assumes h: "pcb_freelist s = Some n" and n: "n < length (PT s)"
    and ex: "sys_Exec curproc call al ar s = Done (pid, s')"
  shows "n \<le> 1 \<Longrightarrow> FIDT (PT s' ! n) = FIDT (PT s ! n)"
    and "n \<le> 1 \<Longrightarrow> refcount s' = refcount s"
    and "1 < n \<Longrightarrow> curproc < length (PT s) \<Longrightarrow> curproc \<noteq> n \<Longrightarrow>
         length (FIDT (PT s ! n)) = length (FIDT (PT s ! curproc)) \<Longrightarrow>
         FIDT (PT s' ! n) = FIDT (PT s ! curproc) \<and>
         refcount s' f = refcount s f + count_list (FIDT (PT s ! curproc)) (Some f)"
proof -
  define s0 where "s0 = snd (acquire_PCB s)"
  define s1 where "s1 = exec_inherit curproc n s0"
  from sys_Exec_Done [OF h ex] obtain s2 where
    s2: "exec_copy_args n call al ar s1 = Done s2"
    and s': "s' = exec_main_thread n call al ar s2"
    unfolding s1_def s0_def by auto
  have len0: "length (PT s0) = length (PT s)"
    by (simp add: s0_def acquire_PCB_PT [OF h])
  have F0: "FIDT (PT s0 ! i) = FIDT (PT s ! i)" if "i < length (PT s)" for i
    using that by (cases "i = n") (simp_all add: s0_def acquire_PCB_PT [OF h])
  have R0: "refcount s0 = refcount s" by (simp add: s0_def acquire_PCB_PT [OF h])
  have len1: "length (PT s1) = length (PT s)" by (simp add: s1_def length_exec_inherit len0)
  have len2: "length (PT s2) = length (PT s)" by (simp add: length_exec_copy_args [OF s2] len1)
  have len3: "length (PT s') = length (PT s)" by (simp add: s' length_exec_main_thread len2)
  have 2: "map FIDT (PT s2) = map FIDT (PT s1)"
    by (rule map_exec_copy_args [OF _ _ _ s2]) simp_all
  have 3: "map FIDT (PT s') = map FIDT (PT s2)"
    unfolding s' by (rule map_exec_main_thread) simp_all
  have F31: "FIDT (PT s' ! n) = FIDT (PT s1 ! n)"
    using map_eq_nth [OF 3, of n] map_eq_nth [OF 2, of n] n len2 len3 by simp
  have R31: "refcount s' = refcount s1"
    by (simp add: s' refcount_exec_main_thread exec_copy_args_Done(4) [OF s2])
  {
    assume o: "n \<le> 1"
    have "FIDT (PT s1 ! n) = FIDT (PT s0 ! n)"
      using map_eq_nth [OF exec_inherit_orphan(1) [OF o, where s = s0 and curproc = curproc], of n]
        n len0 len1
      by (simp add: s1_def)
    then show "FIDT (PT s' ! n) = FIDT (PT s ! n)"
      by (simp add: F31 F0 n)
    show "refcount s' = refcount s"
      using exec_inherit_orphan(2) [OF o, where s = s0 and curproc = curproc]
      by (simp add: R31 s1_def R0)
  }
  {
    assume a: "1 < n" "curproc < length (PT s)" "curproc \<noteq> n"
      "length (FIDT (PT s ! n)) = length (FIDT (PT s ! curproc))"
    have sz: "length (FIDT (PT s0 ! n)) = length (FIDT (PT s0 ! curproc))"
      using a n by (simp add: F0)
    note H = exec_inherit_handles [OF a(1) _ _ a(3) sz]
    have "FIDT (PT s1 ! n) = FIDT (PT s ! curproc)"
      and "refcount s1 f = refcount s f + count_list (FIDT (PT s ! curproc)) (Some f)"
      using H(1) H(2) [where f = f] a n by (simp_all add: s1_def len0 F0 R0)
    then show "FIDT (PT s' ! n) = FIDT (PT s ! curproc) \<and>
         refcount s' f = refcount s f + count_list (FIDT (PT s ! curproc)) (Some f)"
      by (simp add: F31 R31)
  }
qed

lemma alloc_inv_head:
  assumes "alloc_inv s xs" and "pcb_freelist s = Some n"
  shows "n < length (PT s) \<and> pstate (PT s ! n) = FREE"
  using assms by (cases xs) (simp_all add: alloc_inv_def)

lemma map_FIDT_cleanup_zombie:
  "map FIDT (PT (snd (cleanup_zombie p st s))) = map FIDT (PT s)"
  by (simp add: cleanup_zombie_def Let_def release_PCB_def map_upd_pcb)
     (simp add: rlist_remove_exited_node_def rlist_remove_children_node_def comp_def)

text \<open>
  Claim C5. When \<^verbatim>\<open>sys_Exec\<close> takes a slot \<open>n\<close> with PID above 1 and returns, the new
  process's handle table equals the caller's, entry by entry, and every stream control
  block has its reference count incremented once for each entry of the caller's table
  that refers to it. When the new PID is 0 or 1 the slot's handle table and all
  reference counts are left as they were. A call with a null argument pointer always
  returns. The code tests the new PID; in a table whose slots 0 and 1 are in use, every
  caller gets a new PID above 1. The allocator and the reclaiming of a zombie leave
  every handle table alone.
\<close>

theorem sys_Exec_inherits_handles:
  "(pcb_freelist s = Some n \<and> 1 < n \<and> n < MAX_PROC s \<and> curproc < MAX_PROC s \<and> curproc \<noteq> n \<and>
    MAX_FILEID (PT s ! n) = MAX_FILEID (PT s ! curproc) \<and>
    sys_Exec curproc call al ar s = Done (pid, s')
    \<longrightarrow> pid = get_pid (Some n) \<and>
        FIDT (PT s' ! n) = FIDT (PT s ! curproc) \<and>
        refcount s' f = refcount s f + count_list (FIDT (PT s ! curproc)) (Some f)) \<and>
   (pcb_freelist s = Some n \<and> n \<le> 1 \<and> n < MAX_PROC s \<and>
    sys_Exec curproc call al ar s = Done (pid, s')
    \<longrightarrow> pid = get_pid (Some n) \<and>
        FIDT (PT s' ! n) = FIDT (PT s ! n) \<and>
        refcount s' = refcount s) \<and>
   (\<exists>pid s'. sys_Exec curproc call al None s = Done (pid, s')) \<and>
   (alloc_inv s xs \<and> 1 < MAX_PROC s \<and> pstate (PT s ! 0) \<noteq> FREE \<and> pstate (PT s ! 1) \<noteq> FREE \<and>
    pstate (PT s ! curproc) \<noteq> FREE \<and> pcb_freelist s = Some n
    \<longrightarrow> 1 < n \<and> n < MAX_PROC s \<and> curproc \<noteq> n) \<and>
   map FIDT (PT (snd (acquire_PCB s))) = map FIDT (PT s) \<and>
   map FIDT (PT (release_PCB p s)) = map FIDT (PT s) \<and>
   map FIDT (PT (snd (cleanup_zombie p st s))) = map FIDT (PT s)"
proof -
  have A: "pid = get_pid (Some n)"
    if "pcb_freelist s = Some n" "sys_Exec curproc call al ar s = Done (pid, s')"
    using sys_Exec_Done [OF that] by auto
  have B: "1 < n \<and> n < MAX_PROC s \<and> curproc \<noteq> n"
    if "alloc_inv s xs \<and> 1 < MAX_PROC s \<and> pstate (PT s ! 0) \<noteq> FREE \<and> pstate (PT s ! 1) \<noteq> FREE \<and>
        pstate (PT s ! curproc) \<noteq> FREE \<and> pcb_freelist s = Some n"
  proof -
    from that alloc_inv_head [of s xs n] have "n < length (PT s)" "pstate (PT s ! n) = FREE"
      by simp_all
    with that have "n \<noteq> 0" "n \<noteq> 1" "n \<noteq> curproc" by (auto intro: ccontr)
    with \<open>n < length (PT s)\<close> show ?thesis by (simp add: MAX_PROC_def)
  qed
  have C: "map FIDT (PT (snd (acquire_PCB s))) = map FIDT (PT s)"
    by (simp add: acquire_PCB_def map_upd_pcb split: option.splits)
  have D: "map FIDT (PT (release_PCB p s)) = map FIDT (PT s)"
    by (simp add: release_PCB_def map_upd_pcb)
  have E: "\<exists>pid s'. sys_Exec curproc call al None s = Done (pid, s')"
    by (rule sys_Exec_null_Done)
  note H = sys_Exec_handles [where s = s and n = n and curproc = curproc and call = call
      and al = al and ar = ar and pid = pid and s' = s']
  from A B C D E H(1,2) H(3) [where f = f] map_FIDT_cleanup_zombie [of p st s]
  show ?thesis by (simp add: MAX_PROC_def MAX_FILEID_def)
qed

theorem sys_Exec_inherits_handles_witness:
  "(\<exists>s'. sys_Exec 1 (Some 7) 0 None sample_state = Done (3, s') \<and>
         FIDT (PT s' ! 3) = [Some 3, None] \<and> refcount s' 3 = 2) \<and>
   (\<exists>s'. sys_Exec 0 None 0 None (init_table (zero_state 2 2 64)) = Done (0, s') \<and>
         FIDT (PT s' ! 0) = [None, None] \<and> refcount s' 3 = 0)"
proof -
  have 1: "pcb_freelist sample_state = Some 3" "MAX_PROC sample_state = 4"
    "MAX_FILEID (PT sample_state ! 3) = MAX_FILEID (PT sample_state ! Suc 0)"
    "FIDT (PT sample_state ! Suc 0) = [Some 3, None]" "refcount sample_state 3 = 1"
    by (simp_all add: sample_state_def sample_PCB_def MAX_PROC_def MAX_FILEID_def)
  have 2: "pcb_freelist (init_table (zero_state 2 2 64)) = Some 0"
    "MAX_PROC (init_table (zero_state 2 2 64)) = 2"
    "FIDT (PT (init_table (zero_state 2 2 64)) ! 0) = [None, None]"
    "refcount (init_table (zero_state 2 2 64)) 3 = 0"
    by (simp_all add: init_table_def zero_state_def zero_PCB_def MAX_PROC_def upd_pcb_def
        initialize_PCB_def numeral_2_eq_2)
  obtain p1 s1 where 3: "sys_Exec 1 (Some 7) 0 None sample_state = Done (p1, s1)"
    using sys_Exec_null_Done by blast
  obtain p2 s2 where
    4: "sys_Exec 0 None 0 None (init_table (zero_state 2 2 64)) = Done (p2, s2)"
    using sys_Exec_null_Done by blast
  from sys_Exec_inherits_handles [of sample_state 3 1 "Some 7" 0 None p1 s1 3]
    sys_Exec_inherits_handles [of "init_table (zero_state 2 2 64)" 0 0 None 0 None p2 s2 3]
    1 2 3 4
  show ?thesis by (simp add: NOPROC_def)
qed

subsection \<open>Exit\<close>

lemma cleanup_zombie_exitval:
  assumes "i < length (PT t)"
  shows "exitval (PT (snd (cleanup_zombie c st t)) ! i) = exitval (PT t ! i)"
  using assms by (cases "i = c") (simp_all add: cleanup_zombie_PT)

lemma wait_for_any_child_exitval:
  assumes "\<forall>e \<in> set envs. env_keeps_exitval cur e" and "cur < length (PT s)"
  shows "length (PT (kst (wait_for_any_child cur envs st s))) = length (PT s) \<and>
         exitval (PT (kst (wait_for_any_child cur envs st s)) ! cur) = exitval (PT s ! cur)"
  using assms
proof (induction envs arbitrary: s)
  case Nil
  then show ?case
    by (simp add: Let_def cleanup_zombie_exitval cleanup_zombie_length split: prod.splits)
       (metis cleanup_zombie_exitval cleanup_zombie_length snd_conv)
next
  case (Cons e es)
  from Cons.prems have e: "length (PT (e s)) = length (PT s)"
    "exitval (PT (e s) ! cur) = exitval (PT s ! cur)"
    by (simp_all add: env_keeps_exitval_def)
  from Cons.prems have "\<forall>e \<in> set es. env_keeps_exitval cur e" "cur < length (PT (e s))"
    by (simp_all add: e)
  from Cons.IH [OF this] e Cons.prems(2) show ?case
    by (simp add: Let_def split: prod.splits)
       (metis cleanup_zombie_exitval cleanup_zombie_length snd_conv)
qed

lemma exit_drain_exitval:
  assumes "exit_drain cur envs s = Some res"
  shows "(\<forall>e \<in> set envs. env_keeps_exitval cur e) \<longrightarrow> cur < length (PT s) \<longrightarrow>
         exitval (PT (snd res) ! cur) = exitval (PT s ! cur)"
  using assms
proof (induction cur envs s res rule: exit_drain.raw_induct [rotated, consumes 1])
  case (1 exit_drain' cur envs s res)
  show ?case
  proof (intro impI)
    assume env: "\<forall>e \<in> set envs. env_keeps_exitval cur e" and cur: "cur < length (PT s)"
    define r where "r = sys_WaitChild cur envs NOPROC None s"
    have r': "r = wait_for_any_child cur envs None s" by (simp add: r_def sys_WaitChild_def)
    have k: "length (PT (kst r)) = length (PT s)" "exitval (PT (kst r) ! cur) = exitval (PT s ! cur)"
      using wait_for_any_child_exitval [OF env cur, of None] by (simp_all add: r')
    have env': "\<forall>e \<in> set (drop (waits r) envs). env_keeps_exitval cur e"
      using env by (meson in_set_dropD)
    show "exitval (PT (snd res) ! cur) = exitval (PT s ! cur)"
    proof (cases "ret r")
      case (Returned pid)
      show ?thesis
      proof (cases "pid = NOPROC")
        case True
        with 1(2) Returned k show ?thesis by (auto simp: Let_def r_def [symmetric])
      next
        case False
        with 1(2) Returned have "exit_drain' cur (drop (waits r) envs) (kst r) = Some res"
          by (simp add: Let_def r_def [symmetric])
        from 1(1) [OF this] env' cur k show ?thesis by simp
      qed
    next
      case Blocked
      with 1(2) k show ?thesis by (auto simp: Let_def r_def [symmetric])
    next
      case AssertFailed
      with 1(2) k show ?thesis by (auto simp: Let_def r_def [symmetric])
    qed
  qed
qed

text \<open>
  Claim C6. \<^verbatim>\<open>sys_Exit\<close> with exit value 0 leaves the caller's recorded \<^verbatim>\<open>exitval\<close> as it
  was, and with any other value overwrites it with that value: this is the \<^verbatim>\<open>exitval\<close>
  in the state in which \<^verbatim>\<open>sys_ThreadExit\<close> is called, or in which init is left blocked,
  as long as the other threads do not write it meanwhile. For every process but init the
  call reaches \<^verbatim>\<open>sys_ThreadExit\<close> at once.
\<close>

theorem sys_Exit_exitval:
  assumes "curproc < MAX_PROC s" and "\<forall>e \<in> set envs. env_keeps_exitval curproc e"
  shows "(curproc \<noteq> 1 \<longrightarrow> sys_Exit curproc envs ev s =
            Some (Returned (), if ev \<noteq> 0 then upd_pcb curproc (\<lambda>p. p\<lparr>exitval := ev\<rparr>) s else s)) \<and>
         (sys_Exit curproc envs ev s = Some res \<longrightarrow>
            exitval (PT (snd res) ! curproc) = (if ev = 0 then exitval (PT s ! curproc) else ev))"
proof -
  define s1 where "s1 = (if ev \<noteq> 0 then upd_pcb curproc (\<lambda>p. p\<lparr>exitval := ev\<rparr>) s else s)"
  have len1: "curproc < length (PT s1)"
    using assms(1) by (simp add: s1_def MAX_PROC_def upd_pcb_def)
  have ev1: "exitval (PT s1 ! curproc) = (if ev = 0 then exitval (PT s ! curproc) else ev)"
    using assms(1) by (simp add: s1_def MAX_PROC_def upd_pcb_def)
  have A: "sys_Exit curproc envs ev s = Some (Returned (), s1)" if "curproc \<noteq> 1"
    using that by (simp add: sys_Exit_def s1_def)
  have B: "exitval (PT (snd res) ! curproc) = (if ev = 0 then exitval (PT s ! curproc) else ev)"
    if "sys_Exit curproc envs ev s = Some res"
  proof (cases "curproc = 1")
    case False
    with A that ev1 show ?thesis by auto
  next
    case True
    with that have "exit_drain curproc envs s1 = Some res"
      by (cases "ev = 0") (simp_all add: sys_Exit_def Let_def s1_def)
    from exit_drain_exitval [OF this] assms(2) len1 ev1 show ?thesis by simp
  qed
  from A B show ?thesis by (simp add: s1_def)
qed


lemma sys_Exit_init_sample:
  "sys_Exit 1 [] 0 sample_state \<noteq> None \<and> fst (the (sys_Exit 1 [] 0 sample_state)) = Returned ()"
proof -
  define s' where "s' = snd (cleanup_zombie 2 None sample_state)"
  have f: "children_list (PT sample_state ! Suc 0) = [2]" "exited_list (PT sample_state ! Suc 0) = [2]"
    "pstate (PT sample_state ! 2) = ZOMBIE"
    by (simp_all add: sample_state_def sample_PCB_def)
  have 1: "sys_WaitChild (Suc 0) [] NOPROC None sample_state =
             \<lparr>ret = Returned 2, status_out = None, kst = s', waits = 0\<rparr>"
    by (simp add: sys_WaitChild_def is_rlist_empty_def f s'_def Let_def case_prod_beta
        cleanup_zombie_alloc)
  have c: "children_list (PT s' ! Suc 0) = []"
    by (simp add: s'_def cleanup_zombie_PT sample_state_def sample_PCB_def)
  have 2: "sys_WaitChild (Suc 0) [] NOPROC None s' =
             \<lparr>ret = Returned NOPROC, status_out = None, kst = s', waits = 0\<rparr>"
    using c by (simp add: sys_WaitChild_def is_rlist_empty_def)
  have ne: "(2::int) \<noteq> NOPROC" by (simp add: NOPROC_def)
  have "exit_drain 1 [] s' = Some (Returned (), s')"
    by (subst exit_drain.simps) (simp add: 2)
  then have "exit_drain 1 [] sample_state = Some (Returned (), s')"
    using ne by (subst exit_drain.simps) (simp add: 1)
  then show ?thesis by (simp add: sys_Exit_def)
qed

theorem sys_Exit_exitval_witness:
  "exitval (PT (snd (the (sys_Exit 2 [] 0 sample_state))) ! 2) = 7 \<and>
   exitval (PT (snd (the (sys_Exit 2 [] 9 sample_state))) ! 2) = 9 \<and>
   sys_Exit 1 [] 0 sample_state \<noteq> None \<and>
   exitval (PT (snd (the (sys_Exit 1 [] 0 sample_state))) ! 1) = 7"
proof -
  have 1: "2 < MAX_PROC sample_state" "1 < MAX_PROC sample_state"
    "exitval (PT sample_state ! 2) = 7" "exitval (PT sample_state ! 1) = 7"
    by (simp_all add: sample_state_def sample_PCB_def MAX_PROC_def)
  have 2: "\<forall>e \<in> set []. env_keeps_exitval c e" for c by simp
  obtain res where res: "sys_Exit 1 [] 0 sample_state = Some res"
    using sys_Exit_init_sample by auto
  note A = sys_Exit_exitval [OF 1(1) 2, of 0] sys_Exit_exitval [OF 1(1) 2, of 9]
  note B = sys_Exit_exitval [OF 1(2) 2, of 0 res]
  have a: "sys_Exit 2 [] 0 sample_state = Some (Returned (), sample_state)"
    using A(1) by simp
  have b: "sys_Exit 2 [] 9 sample_state =
             Some (Returned (), upd_pcb 2 (\<lambda>p. p\<lparr>exitval := 9\<rparr>) sample_state)"
    using A(2) by simp
  from A(1) [of "(Returned (), sample_state)"]
    A(2) [of "(Returned (), upd_pcb 2 (\<lambda>p. p\<lparr>exitval := 9\<rparr>) sample_state)"] B a b res 1
  show ?thesis by simp
qed

subsection \<open>The main thread of a new process\<close>

lemma exec_inherit_others:
  "tcbs (exec_inherit curproc n s) = tcbs s" "ptcbs (exec_inherit curproc n s) = ptcbs s"
  "ready (exec_inherit curproc n s) = ready s" "mem (exec_inherit curproc n s) = mem s"
proof -
  have "tcbs (inherit_FIDT n c is t) = tcbs t \<and> ptcbs (inherit_FIDT n c is t) = ptcbs t \<and>
        ready (inherit_FIDT n c is t) = ready t \<and> mem (inherit_FIDT n c is t) = mem t" for c "is" t
    by (induction "is" arbitrary: t)
      (simp_all add: Let_def upd_pcb_def FCB_incref_def split: option.splits)
  then show "tcbs (exec_inherit curproc n s) = tcbs s" "ptcbs (exec_inherit curproc n s) = ptcbs s"
    "ready (exec_inherit curproc n s) = ready s" "mem (exec_inherit curproc n s) = mem s"
    by (simp_all add: exec_inherit_def Let_def upd_pcb_def)
qed

lemma exec_copy_args_mem:
  assumes "exec_copy_args n call al (Some src) s = Done s'" and "src < length (mem s)"
  shows "mem s' = mem s @ [take (size_t al) (mem s ! src)]"
    and "size_t al \<le> length (mem s ! src)" and "size_t al \<le> heap_free s"
proof -
  let ?s2 = "upd_pcb n (\<lambda>p. p\<lparr>argl := al\<rparr>) (upd_pcb n (\<lambda>p. p\<lparr>main_task := call\<rparr>) s)"
  have m: "mem ?s2 = mem s" "heap_free ?s2 = heap_free s" by (simp_all add: upd_pcb_def)
  from assms(1) have fit: "size_t al \<le> heap_free s"
    by (auto simp: exec_copy_args_def Let_def malloc_def memcpy_def m split: if_splits)
  let ?s3 = "?s2\<lparr>mem := mem s @ [replicate (size_t al) (CHR 0x00)],
                    heap_free := heap_free s - size_t al\<rparr>"
  let ?s4 = "upd_pcb n (\<lambda>p. p\<lparr>args := Some (length (mem s))\<rparr>) ?s3"
  from assms(1) fit have c: "memcpy (Some (length (mem s))) (Some src) (size_t al) ?s4 = Done s'"
    by (simp add: exec_copy_args_def Let_def malloc_def m)
  have m4: "mem ?s4 = mem s @ [replicate (size_t al) (CHR 0x00)]" by (simp add: upd_pcb_def)
  from c assms(2) have le: "size_t al \<le> length (mem s ! src)"
    by (auto simp: memcpy_def m4 nth_append split: if_splits)
  from c assms(2) have "mem s' = (mem ?s4)[length (mem s) :=
                        take (size_t al) (mem ?s4 ! src) @
                        drop (size_t al) (mem ?s4 ! length (mem s))]"
    by (auto simp: memcpy_def split: if_splits)
  with assms(2) show "mem s' = mem s @ [take (size_t al) (mem s ! src)]"
    by (simp add: m4 nth_append)
  from le fit show "size_t al \<le> length (mem s ! src)" "size_t al \<le> heap_free s" by simp_all
qed

lemma exec_copy_args_copies:
  assumes "src < length (mem s)" and "size_t al \<le> length (mem s ! src)"
    and "size_t al \<le> heap_free s"
  shows "\<exists>s'. exec_copy_args n call al (Some src) s = Done s'"
  using assms
  by (simp add: exec_copy_args_def Let_def malloc_def memcpy_def upd_pcb_def nth_append)

lemma map_exec_inherit:
  assumes "\<And>x v. g (x\<lparr>parent := v\<rparr>) = g x" "\<And>x v. g (x\<lparr>children_list := v\<rparr>) = g x"
    "\<And>x v. g (x\<lparr>FIDT := v\<rparr>) = g x"
  shows "map g (PT (exec_inherit curproc n s)) = map g (PT s)"
  by (simp add: exec_inherit_def Let_def map_upd_pcb map_inherit_FIDT assms)

lemma exec_main_thread_effect:
  assumes "call \<noteq> None" and "n < length (PT s)"
  shows "tcbs (exec_main_thread n call al ar s) =
           tcbs s @ [\<lparr>owner_pcb = n, thread_func = start_main_thread, ptcb = Some (length (ptcbs s))\<rparr>]"
    and "ptcbs (exec_main_thread n call al ar s) =
           ptcbs s @ [\<lparr>task = call, ptcb_argl = al, ptcb_args = ar, tcb = Some (length (tcbs s))\<rparr>]"
    and "ready (exec_main_thread n call al ar s) = ready s @ [length (tcbs s)]"
    and "main_thread (PT (exec_main_thread n call al ar s) ! n) = Some (length (tcbs s))"
    and "thread_count (PT (exec_main_thread n call al ar s) ! n) = 1"
    and "ptcb_list (PT (exec_main_thread n call al ar s) ! n) = ptcb_list (PT s ! n) @ [length (ptcbs s)]"
    and "mem (exec_main_thread n call al ar s) = mem s"
  using assms
  by (simp_all add: exec_main_thread_def Let_def split_beta upd_pcb_def spawn_thread_def
      init_ptcb_def wakeup_def rlist_push_back_def)


lemma sys_Exec_thread_record:
  assumes h: "pcb_freelist s = Some n" and n: "n < length (PT s)" and call: "call \<noteq> None"
    and ex: "sys_Exec curproc call al ar s = Done (pid, s')"
  shows "ptcbs s' =
           ptcbs s @ [\<lparr>task = call, ptcb_argl = al, ptcb_args = ar, tcb = Some (length (tcbs s))\<rparr>]"
    and "tcbs s' =
           tcbs s @ [\<lparr>owner_pcb = n, thread_func = start_main_thread, ptcb = Some (length (ptcbs s))\<rparr>]"
    and "main_thread (PT s' ! n) = Some (length (tcbs s))"
    and "thread_count (PT s' ! n) = 1"
    and "ptcb_list (PT s' ! n) = ptcb_list (PT s ! n) @ [length (ptcbs s)]"
    and "ready s' = ready s @ [length (tcbs s)]"
    and "args (PT s' ! n) = (if ar = None then None else Some (length (mem s)))"
proof -
  define s0 where "s0 = snd (acquire_PCB s)"
  define s1 where "s1 = exec_inherit curproc n s0"
  from sys_Exec_Done [OF h ex] obtain s2 where
    s2: "exec_copy_args n call al ar s1 = Done s2"
    and s': "s' = exec_main_thread n call al ar s2"
    unfolding s1_def s0_def by auto
  have len0: "length (PT s0) = length (PT s)" by (simp add: s0_def acquire_PCB_PT [OF h])
  have len1: "length (PT s1) = length (PT s)" by (simp add: s1_def length_exec_inherit len0)
  have len2: "length (PT s2) = length (PT s)" by (simp add: length_exec_copy_args [OF s2] len1)
  have len3: "length (PT s') = length (PT s)" by (simp add: s' length_exec_main_thread len2)
  have o1: "tcbs s1 = tcbs s" "ptcbs s1 = ptcbs s" "ready s1 = ready s" "mem s1 = mem s"
    by (simp_all add: s1_def exec_inherit_others s0_def acquire_PCB_PT [OF h])
  have o2: "tcbs s2 = tcbs s" "ptcbs s2 = ptcbs s" "ready s2 = ready s"
    by (simp_all add: exec_copy_args_Done(5-7) [OF s2] o1)
  have pl0: "ptcb_list (PT s0 ! n) = ptcb_list (PT s ! n)"
    using n by (simp add: s0_def acquire_PCB_PT [OF h])
  have "map ptcb_list (PT s1) = map ptcb_list (PT s0)"
    unfolding s1_def by (rule map_exec_inherit) simp_all
  then have pl1: "ptcb_list (PT s1 ! n) = ptcb_list (PT s0 ! n)"
    using n len1 by (intro map_eq_nth) simp_all
  have "map ptcb_list (PT s2) = map ptcb_list (PT s1)"
    by (rule map_exec_copy_args [OF _ _ _ s2]) simp_all
  then have pl2: "ptcb_list (PT s2 ! n) = ptcb_list (PT s1 ! n)"
    using n len2 by (intro map_eq_nth) simp_all
  have a2: "args (PT s2 ! n) = (if ar = None then None else Some (length (mem s)))"
    using n len1 by (simp add: exec_copy_args_Done(1) [OF s2] o1)
  have "map args (PT s') = map args (PT s2)"
    unfolding s' by (rule map_exec_main_thread) simp_all
  then have a3: "args (PT s' ! n) = args (PT s2 ! n)"
    using n len3 by (intro map_eq_nth) simp_all
  have n2: "n < length (PT s2)" using n len2 by simp
  note E = exec_main_thread_effect [OF call n2, of al ar, folded s']
  show "ptcbs s' =
           ptcbs s @ [\<lparr>task = call, ptcb_argl = al, ptcb_args = ar, tcb = Some (length (tcbs s))\<rparr>]"
    using E(2) by (simp add: o2)
  show "tcbs s' =
           tcbs s @ [\<lparr>owner_pcb = n, thread_func = start_main_thread, ptcb = Some (length (ptcbs s))\<rparr>]"
    using E(1) by (simp add: o2)
  show "main_thread (PT s' ! n) = Some (length (tcbs s))"
    using E(4) by (simp add: o2)
  show "thread_count (PT s' ! n) = 1"
    using E(5) by simp
  show "ptcb_list (PT s' ! n) = ptcb_list (PT s ! n) @ [length (ptcbs s)]"
    using E(6) by (simp add: o2 pl2 pl1 pl0)
  show "ready s' = ready s @ [length (tcbs s)]"
    using E(3) by (simp add: o2)
  show "args (PT s' ! n) = (if ar = None then None else Some (length (mem s)))"
    by (simp add: a3 a2)
qed

lemma sys_Exec_thread_record_args:
  assumes "pcb_freelist s = Some n" and "n < length (PT s)" and "call \<noteq> None"
    and "src < length (mem s)"
    and "sys_Exec curproc call al (Some src) s = Done (pid, s')"
  shows "ptcb_args (last (ptcbs s')) = Some src"
    and "args (PT s' ! n) = Some (length (mem s))"
    and "ptcb_args (last (ptcbs s')) \<noteq> args (PT s' ! n)"
  using sys_Exec_thread_record(1,7) [OF assms(1-3,5)] assms(4)
  by simp_all

text \<open>
  Claim C7. The claim has the thread control record of the main thread refer to the
  argument storage owned by the new process. \<^verbatim>\<open>sys_Exec\<close> copies the arguments into
  storage of the new process (\<^verbatim>\<open>newproc->args\<close>) but hands the caller's pointer \<^verbatim>\<open>args\<close>
  to \<^verbatim>\<open>init_ptcb\<close>: called by process 1 with the entry point 7 and a three-byte buffer at
  address 0, it takes slot 3, whose own copy of the bytes is at address 1, while the one
  record it creates refers to address 0. The fields that the claim lists are set as it
  says (\<open>sys_Exec_thread_record\<close>).
\<close>

theorem sys_Exec_ptcb_args_not_owned:
  "\<exists>s'. sys_Exec 1 (Some 7) 3 (Some 0) (sample_state\<lparr>mem := [''abc'']\<rparr>) = Done (3, s') \<and>
     args (PT s' ! 3) = Some 1 \<and>
     mem s' = [''abc'', ''abc''] \<and>
     ptcbs s' = [\<lparr>task = Some 7, ptcb_argl = 3, ptcb_args = Some 0, tcb = Some 0\<rparr>] \<and>
     ptcb_args (ptcbs s' ! 0) \<noteq> args (PT s' ! 3)"
  by (simp add: sample_state_def sample_PCB_def model_defs)

subsection \<open>Reading the process-info stream\<close>

lemma find_nonfree_found:
  assumes "c \<le> j" and "j < length pt" and "pstate (pt ! j) \<noteq> FREE"
    and "\<forall>k. c \<le> k \<and> k < j \<longrightarrow> pstate (pt ! k) = FREE"
  shows "find_nonfree pt c = Done (j, True)"
  using assms
proof (induction "j - c" arbitrary: c)
  case 0
  then have "c = j" by simp
  with 0 show ?case by (subst find_nonfree.simps) simp
next
  case (Suc d)
  then have c: "c < j" "pstate (pt ! c) = FREE" "Suc c \<noteq> length pt" by auto
  from Suc have "find_nonfree pt (Suc c) = Done (j, True)"
    by (intro Suc.hyps(1)) auto
  with c Suc.prems(2) show ?case by (subst find_nonfree.simps) simp
qed

lemma find_nonfree_end:
  assumes "c < length pt" and "\<forall>k. c \<le> k \<and> k < length pt \<longrightarrow> pstate (pt ! k) = FREE"
  shows "find_nonfree pt c = Done (length pt, False)"
  using assms
proof (induction "length pt - c" arbitrary: c)
  case 0
  then show ?case by simp
next
  case (Suc d)
  show ?case
  proof (cases "Suc c = length pt")
    case True
    with Suc.prems show ?thesis by (subst find_nonfree.simps) auto
  next
    case False
    with Suc have "find_nonfree pt (Suc c) = Done (length pt, False)"
      by (intro Suc.hyps(1)) auto
    with False Suc.prems show ?thesis by (subst find_nonfree.simps) auto
  qed
qed

lemma copy_args_Some:
  assumes "\<forall>i \<in> set is. i < length b"
  shows "copy_args (Some b) is dst = Done (fold (\<lambda>i F. F[i := b ! i]) is dst)"
  using assms by (induction "is" arbitrary: dst) simp_all

lemma copy_args_prefix:
  assumes "k \<le> length b" and "k \<le> length dst"
  shows "copy_args (Some b) [0 ..< k] dst = Done (take k b @ drop k dst)"
  using assms by (simp add: copy_args_Some fold_copy_prefix)

lemma procinfo_read_at_end:
  assumes "pcbcursor cb = MAX_PROC s"
  shows "procinfo_read sz s (Some cb) buf n = Done (0, Some cb, buf)"
  using assms by (simp add: procinfo_read_def)

lemma procinfo_read_only_free:
  assumes "pcbcursor cb < MAX_PROC s"
    and "\<forall>k. pcbcursor cb \<le> k \<and> k < MAX_PROC s \<longrightarrow> pstate (PT s ! k) = FREE"
  shows "procinfo_read sz s (Some cb) buf n = Done (0, Some (cb\<lparr>pcbcursor := MAX_PROC s\<rparr>), buf)"
  using assms find_nonfree_end [of "pcbcursor cb" "PT s"]
  by (simp add: procinfo_read_def MAX_PROC_def)

lemma procinfo_read_snapshot:
  assumes "pcbcursor cb \<le> j" and "j < MAX_PROC s" and "pstate (PT s ! j) \<noteq> FREE"
    and "\<forall>k. pcbcursor cb \<le> k \<and> k < j \<longrightarrow> pstate (PT s ! k) = FREE"
    and "k = min (nat (argl (PT s ! j))) (length (info_args (info cb)))"
    and "k = 0 \<or> (\<exists>a. args (PT s ! j) = Some a \<and> a < length (mem s) \<and> k \<le> length (mem s ! a))"
    and "snap =
      \<lparr>info_pid = int j, info_ppid = get_pid (parent (PT s ! j)),
       info_alive = (if pstate (PT s ! j) = ALIVE then 1 else 0),
       info_thread_count = thread_count (PT s ! j), info_main_task = main_task (PT s ! j),
       info_argl = argl (PT s ! j),
       info_args = (if k = 0 then info_args (info cb)
                    else take k (mem s ! the (args (PT s ! j))) @ drop k (info_args (info cb)))\<rparr>"
  shows "procinfo_read sz s (Some cb) buf n = Done (sz, Some \<lparr>pcbcursor = Suc j, info = snap\<rparr>, snap)"
proof -
  have f: "find_nonfree (PT s) (pcbcursor cb) = Done (j, True)"
    using assms(1-4) by (intro find_nonfree_found) (simp_all add: MAX_PROC_def)
  have ne: "pcbcursor cb \<noteq> MAX_PROC s" using assms(1,2) by simp
  show ?thesis
  proof (cases "k = 0")
    case True
    then have "copy_args src [0 ..< k] (info_args (info cb)) = Done (info_args (info cb))" for src
      by simp
    with True f ne assms(5,7) show ?thesis
      by (simp add: procinfo_read_def Let_def)
  next
    case False
    with assms(6) obtain a where a: "args (PT s ! j) = Some a" "a < length (mem s)"
      "k \<le> length (mem s ! a)" by auto
    have "k \<le> length (info_args (info cb))" using assms(5) by simp
    with a have "copy_args (deref_args s (args (PT s ! j))) [0 ..< k] (info_args (info cb))
            = Done (take k (mem s ! a) @ drop k (info_args (info cb)))"
      by (simp add: deref_args_def copy_args_prefix)
    with False f ne a assms(5,7) show ?thesis
      by (simp add: procinfo_read_def Let_def)
  qed
qed


lemma procinfo_read_null_args:
  assumes "pcbcursor cb \<le> j" and "j < MAX_PROC s" and "pstate (PT s ! j) \<noteq> FREE"
    and "\<forall>k. pcbcursor cb \<le> k \<and> k < j \<longrightarrow> pstate (PT s ! k) = FREE"
    and "0 < argl (PT s ! j)" and "info_args (info cb) \<noteq> []" and "args (PT s ! j) = None"
  shows "procinfo_read sz s (Some cb) buf n = Fault"
proof -
  have f: "find_nonfree (PT s) (pcbcursor cb) = Done (j, True)"
    using assms(1-4) by (intro find_nonfree_found) (simp_all add: MAX_PROC_def)
  have ne: "pcbcursor cb \<noteq> MAX_PROC s" using assms(1,2) by simp
  define k where "k = min (nat (argl (PT s ! j))) (length (info_args (info cb)))"
  have "0 < k" using assms(5,6) by (simp add: k_def)
  then have "[0 ..< k] = 0 # [1 ..< k]" by (simp add: upt_conv_Cons)
  then have "copy_args None [0 ..< k] (info_args (info cb)) = Fault" by simp
  with f ne assms(7) show ?thesis
    by (simp add: procinfo_read_def Let_def deref_args_def k_def)
qed

text \<open>
  Claim C9. The claim has every \<^verbatim>\<open>procinfo_read\<close> that finds a slot in use copy its
  snapshot and return the snapshot's size. \<^verbatim>\<open>sys_Exec\<close> with a length of 5 and a null
  argument pointer leaves slot 3 with \<^verbatim>\<open>argl = 5\<close> and \<^verbatim>\<open>args = NULL\<close>; a read with the
  cursor on that slot reads \<^verbatim>\<open>((char*) pcb->args)[0]\<close> through the null pointer. For slots
  whose arguments can be read, and at the end of the table, the claim holds
  (\<open>procinfo_read_snapshot\<close>, \<open>procinfo_read_only_free\<close>, \<open>procinfo_read_at_end\<close>).
\<close>

theorem procinfo_read_null_args_fault:
  "\<exists>s'. sys_Exec 1 (Some 7) 5 None sample_state = Done (3, s') \<and>
     pstate (PT s' ! 3) = ALIVE \<and>
     argl (PT s' ! 3) = 5 \<and>
     args (PT s' ! 3) = None \<and>
     procinfo_read 168 s' (Some \<lparr>pcbcursor = 3, info = zero_procinfo 4\<rparr>) (zero_procinfo 4) 168
       = Fault"
  by (simp add: sample_state_def sample_PCB_def model_defs procinfo_read_def zero_procinfo_def
      deref_args_def eval_nat_numeral)

end
